theory Spec2Isabelle
  imports Main "HOL-Library.Word" "HOL-Library.AList" "HOL-Library.Sublist"
    "HOL-Library.List_Lexorder" "HOL-Library.Product_Lexorder"
begin

section \<open>Python strings and bytes\<close>

text \<open>
  A Python \<open>str\<close> is a sequence of Unicode code points; it is modelled as a list of
  natural numbers (the code points).  File contents are bytes (\<open>8 word\<close>).  A literal
  of the source is written \<open>u ''...''\<close>.
\<close>

type_synonym ustr = "nat list"
type_synonym byte = "8 word"

definition u :: "string \<Rightarrow> ustr" where
  "u s = map of_char s"

definition NL :: nat where "NL = 10"
definition CR :: nat where "CR = 13"

text \<open>
  \<open>str.isspace\<close> for one code point; the same set is what \<open>\s\<close> matches in a
  \<open>re\<close> pattern over \<open>str\<close> and what \<open>str.strip()\<close> removes.
\<close>

definition isspace :: "nat \<Rightarrow> bool" where
  "isspace c \<longleftrightarrow>
     (9 \<le> c \<and> c \<le> 13) \<or> (28 \<le> c \<and> c \<le> 32) \<or> c = 133 \<or> c = 160 \<or> c = 5760
     \<or> (8192 \<le> c \<and> c \<le> 8202) \<or> c = 8232 \<or> c = 8233 \<or> c = 8239 \<or> c = 8287
     \<or> c = 12288"

definition lstrip :: "ustr \<Rightarrow> ustr" where
  "lstrip s = dropWhile isspace s"

definition rstrip :: "ustr \<Rightarrow> ustr" where
  "rstrip s = rev (dropWhile isspace (rev s))"

definition strip :: "ustr \<Rightarrow> ustr" where
  "strip s = rstrip (lstrip s)"

text \<open>\<open>s.rstrip(chars)\<close>: trailing characters that occur in \<open>chars\<close> are removed.\<close>

definition rstrip_chars :: "ustr \<Rightarrow> ustr \<Rightarrow> ustr" where
  "rstrip_chars chars s = rev (dropWhile (\<lambda>c. c \<in> set chars) (rev s))"

definition endswith_nl :: "ustr \<Rightarrow> bool" where
  "endswith_nl s \<longleftrightarrow> s \<noteq> [] \<and> last s = NL"

text \<open>
  \<open>str.lower()\<close>.  The letters \<open>A\<close>-\<open>Z\<close> become \<open>a\<close>-\<open>z\<close>; U+0130 becomes
  \<open>i\<close> followed by U+0307, and U+212A becomes \<open>k\<close>.  These are all the characters
  whose lower-case form has an ASCII character in it, and U+0130 is the only one
  whose lower-case form is longer than one character.  Every other character is
  left as it is here, where Python may put another character outside ASCII; so this
  text and Python's have the same length and agree wherever either has an ASCII
  character.  \<open>_is_bool_text\<close>, \<open>_parse_int\<close> and \<open>_add_control\<close> only compare the
  lowered text with ASCII words and with the prefix \<open>0x\<close>, which comes out the same.
  (The sort of \<open>all_items\<close>, where the whole lowered text counts, takes
  \<open>str.lower\<close> as a parameter.)
\<close>

definition lower_char :: "nat \<Rightarrow> ustr" where
  "lower_char c =
     (if 65 \<le> c \<and> c \<le> 90 then [c + 32]
      else if c = 304 then [105, 775]
      else if c = 8490 then [107]
      else [c])"

definition lower :: "ustr \<Rightarrow> ustr" where
  "lower s = concat (map lower_char s)"

text \<open>
  \<open>str.splitlines(True)\<close>: the line boundaries are \<open>\n\<close>, \<open>\r\<close>, \<open>\r\n\<close>,
  \<open>\v\<close>, \<open>\f\<close>, U+001C, U+001D, U+001E, U+0085, U+2028 and U+2029; each line keeps
  its terminator, and there is no empty last line.
\<close>

definition is_linebreak :: "nat \<Rightarrow> bool" where
  "is_linebreak c \<longleftrightarrow>
     (10 \<le> c \<and> c \<le> 13) \<or> (28 \<le> c \<and> c \<le> 30) \<or> c = 133 \<or> c = 8232 \<or> c = 8233"

fun splitlines_acc :: "ustr \<Rightarrow> ustr \<Rightarrow> ustr list" where
  "splitlines_acc acc [] = (if acc = [] then [] else [rev acc])"
| "splitlines_acc acc (c # cs) =
     (if c = CR \<and> cs \<noteq> [] \<and> hd cs = NL
        then rev (NL # CR # acc) # splitlines_acc [] (tl cs)
      else if is_linebreak c then rev (c # acc) # splitlines_acc [] cs
      else splitlines_acc (c # acc) cs)"

definition splitlines_keepends :: "ustr \<Rightarrow> ustr list" where
  "splitlines_keepends s = splitlines_acc [] s"

section \<open>Text files: UTF-8 with replacement, universal newlines\<close>

text \<open>
  \<open>open(path, "r", encoding="utf-8", errors="replace")\<close> decodes the bytes as UTF-8,
  puts U+FFFD in place of every ill-formed sequence, and (the \<open>newline\<close> argument being
  left at its default) translates \<open>\r\n\<close> and a lone \<open>\r\<close> to \<open>\n\<close>.
\<close>

definition REPL :: nat where "REPL = 65533"

definition is_cont :: "nat \<Rightarrow> bool" where
  "is_cont b \<longleftrightarrow> 128 \<le> b \<and> b < 192"

definition bad_second3 :: "nat \<Rightarrow> nat \<Rightarrow> bool" where
  "bad_second3 c b2 = (if b2 < 160 then c = 224 else c = 237)"

definition bad_second4 :: "nat \<Rightarrow> nat \<Rightarrow> bool" where
  "bad_second4 c b2 = (if b2 < 144 then c = 240 else c = 244)"

fun utf8_decode :: "nat list \<Rightarrow> ustr" where
  "utf8_decode [] = []"
| "utf8_decode (c # bs) =
     (if c < 128 then c # utf8_decode bs
      else if c < 194 then REPL # utf8_decode bs
      else if c < 224 then
        (case bs of
           [] \<Rightarrow> [REPL]
         | b2 # r \<Rightarrow>
             if is_cont b2 then ((c - 192) * 64 + (b2 - 128)) # utf8_decode r
             else REPL # utf8_decode bs)
      else if c < 240 then
        (case bs of
           [] \<Rightarrow> [REPL]
         | b2 # r \<Rightarrow>
             if is_cont b2 \<and> \<not> bad_second3 c b2
             then (case r of
                     [] \<Rightarrow> [REPL]
                   | b3 # r' \<Rightarrow>
                       if is_cont b3
                       then ((c - 224) * 4096 + (b2 - 128) * 64 + (b3 - 128)) # utf8_decode r'
                       else REPL # utf8_decode r)
             else REPL # utf8_decode bs)
      else if c < 245 then
        (case bs of
           [] \<Rightarrow> [REPL]
         | b2 # r \<Rightarrow>
             if is_cont b2 \<and> \<not> bad_second4 c b2
             then (case r of
                     [] \<Rightarrow> [REPL]
                   | b3 # r' \<Rightarrow>
                       if is_cont b3
                       then (case r' of
                               [] \<Rightarrow> [REPL]
                             | b4 # r'' \<Rightarrow>
                                 if is_cont b4
                                 then ((c - 240) * 262144 + (b2 - 128) * 4096
                                        + (b3 - 128) * 64 + (b4 - 128)) # utf8_decode r''
                                 else REPL # utf8_decode r')
                       else REPL # utf8_decode r)
             else REPL # utf8_decode bs)
      else REPL # utf8_decode bs)"

definition decode :: "byte list \<Rightarrow> ustr" where
  "decode bs = utf8_decode (map unat bs)"

fun universal_newlines :: "ustr \<Rightarrow> ustr" where
  "universal_newlines [] = []"
| "universal_newlines (c # cs) =
     (if c = CR then NL # universal_newlines (if cs \<noteq> [] \<and> hd cs = NL then tl cs else cs)
      else c # universal_newlines cs)"

definition read_text :: "byte list \<Rightarrow> ustr" where
  "read_text bs = universal_newlines (decode bs)"

text \<open>
  \<open>open(path, "w", encoding="utf-8", errors="replace")\<close>: every \<open>\n\<close> written
  becomes \<open>os.linesep\<close> (the parameter \<open>linesep\<close>), and the text is encoded as UTF-8,
  a lone surrogate becoming \<open>?\<close>.
\<close>

definition utf8_encode_char :: "nat \<Rightarrow> nat list" where
  "utf8_encode_char c =
     (if c < 128 then [c]
      else if c < 2048 then [192 + c div 64, 128 + c mod 64]
      else if 55296 \<le> c \<and> c < 57344 then [63]
      else if c < 65536 then [224 + c div 4096, 128 + (c div 64) mod 64, 128 + c mod 64]
      else [240 + c div 262144, 128 + (c div 4096) mod 64, 128 + (c div 64) mod 64,
            128 + c mod 64])"

definition encode :: "ustr \<Rightarrow> byte list" where
  "encode s = map of_nat (concat (map utf8_encode_char s))"

definition translate_newlines :: "ustr \<Rightarrow> ustr \<Rightarrow> ustr" where
  "translate_newlines linesep s = concat (map (\<lambda>c. if c = NL then linesep else [c]) s)"

definition write_text :: "ustr \<Rightarrow> ustr \<Rightarrow> byte list" where
  "write_text linesep s = encode (translate_newlines linesep s)"

section \<open>Regular expressions\<close>

text \<open>
  The patterns of the source, matched as the backtracking matcher of \<open>re\<close> does.
  A matcher state is the position, the text still to be matched and the groups closed
  so far.  \<open>run r st\<close> lists every state in which \<open>r\<close> can end when started in
  \<open>st\<close>, in the order in which backtracking tries them; the first state of the
  list is the match that \<open>re\<close> reports.
\<close>

datatype rx =
    Atom "nat \<Rightarrow> bool"
  | Seq rx rx
  | Alt rx rx
  | StarG "nat \<Rightarrow> bool"
  | StarL "nat \<Rightarrow> bool"
  | Group string rx
  | Eps
  | Bol
  | Eol

type_synonym groups = "(string \<times> ustr) list"
type_synonym mstate = "nat \<times> ustr \<times> groups"

text \<open>Greedy \<open>c*\<close>: the longest run first.  Lazy \<open>c*?\<close>: the shortest first.\<close>

fun star_g :: "(nat \<Rightarrow> bool) \<Rightarrow> nat \<Rightarrow> ustr \<Rightarrow> groups \<Rightarrow> mstate list" where
  "star_g c p [] g = [(p, [], g)]"
| "star_g c p (x # xs) g = (if c x then star_g c (Suc p) xs g else []) @ [(p, x # xs, g)]"

fun star_l :: "(nat \<Rightarrow> bool) \<Rightarrow> nat \<Rightarrow> ustr \<Rightarrow> groups \<Rightarrow> mstate list" where
  "star_l c p [] g = [(p, [], g)]"
| "star_l c p (x # xs) g = (p, x # xs, g) # (if c x then star_l c (Suc p) xs g else [])"

fun run :: "rx \<Rightarrow> mstate \<Rightarrow> mstate list" where
  "run (Atom c) (p, s, g) =
     (case s of [] \<Rightarrow> [] | x # xs \<Rightarrow> if c x then [(Suc p, xs, g)] else [])"
| "run (Seq a b) st = concat (map (run b) (run a st))"
| "run (Alt a b) st = run a st @ run b st"
| "run (StarG c) (p, s, g) = star_g c p s g"
| "run (StarL c) (p, s, g) = star_l c p s g"
| "run (Group n r) (p, s, g) =
     map (\<lambda>(p', s', g'). (p', s', (n, take (p' - p) s) # g')) (run r (p, s, g))"
| "run Eps st = [st]"
| "run Bol (p, s, g) = (if p = 0 then [(p, s, g)] else [])"
| "run Eol (p, s, g) = (if s = [] \<or> s = [NL] then [(p, s, g)] else [])"

definition seqs :: "rx list \<Rightarrow> rx" where
  "seqs rs = foldr Seq rs Eps"

text \<open>\<open>pattern.match(s)\<close>: the groups of the first match at position 0, if any.\<close>

definition re_match :: "rx \<Rightarrow> ustr \<Rightarrow> groups option" where
  "re_match r s = (case run r (0, s, []) of [] \<Rightarrow> None | (p, s', g) # _ \<Rightarrow> Some g)"

text \<open>\<open>re.fullmatch\<close>: the first match that ends at the end of the text.\<close>

definition re_fullmatch :: "rx \<Rightarrow> ustr \<Rightarrow> groups option" where
  "re_fullmatch r s =
     (case filter (\<lambda>(p, s', g). s' = []) (run r (0, s, [])) of
        [] \<Rightarrow> None | (p, s', g) # _ \<Rightarrow> Some g)"

definition group_of :: "groups \<Rightarrow> string \<Rightarrow> ustr" where
  "group_of g n = (case map_of g n of Some t \<Rightarrow> t | None \<Rightarrow> [])"

definition is_char :: "string \<Rightarrow> nat \<Rightarrow> bool" where
  "is_char s c \<longleftrightarrow> [c] = u s"

definition section_char :: "nat \<Rightarrow> bool" where
  "section_char c \<longleftrightarrow> \<not> is_char '']'' c"

text \<open>\<open>.\<close> matches every character but \<open>\n\<close>.\<close>

definition any_char :: "nat \<Rightarrow> bool" where
  "any_char c \<longleftrightarrow> c \<noteq> NL"

text \<open>\<^verbatim>\<open>_SECTION_RE = ^\s*\[(?P<section>[^\]]+)\]\s*$\<close>\<close>

definition SECTION_RE :: rx where
  "SECTION_RE =
     seqs [Bol, StarG isspace, Atom (is_char ''[''),
           Group ''section'' (Seq (Atom section_char) (StarG section_char)),
           Atom (is_char '']''), StarG isspace, Eol]"

text \<open>
  \<^verbatim>\<open>_KEYVAL_RE = ^(?P<prefix>\s*)(?P<key>[^=;\r\n]+?)\s*=\s*(?P<val>.*?)(?P<suffix>\s*)$\<close>
\<close>

definition key_char :: "nat \<Rightarrow> bool" where
  "key_char c \<longleftrightarrow> \<not> is_char ''='' c \<and> \<not> is_char '';'' c \<and> c \<noteq> CR \<and> c \<noteq> NL"

definition KEYVAL_RE :: rx where
  "KEYVAL_RE =
     seqs [Bol, Group ''prefix'' (StarG isspace),
           Group ''key'' (Seq (Atom key_char) (StarL key_char)),
           StarG isspace, Atom (is_char ''=''), StarG isspace,
           Group ''val'' (StarL any_char),
           Group ''suffix'' (StarG isspace), Eol]"

definition norm_section :: "ustr \<Rightarrow> ustr" where
  "norm_section s = strip s"

definition norm_key :: "ustr \<Rightarrow> ustr" where
  "norm_key k = strip k"

section \<open>The INI document\<close>

record IniValueRef =
  ref_section :: ustr
  ref_key :: ustr
  ref_value :: ustr
  line_index :: nat
  ref_prefix :: ustr
  ref_suffix :: ustr

text \<open>
  \<open>refs\<close> is a Python dictionary: an association list in insertion order, updated
  with \<open>AList.update\<close> (an existing key keeps its place, a new one goes last).
\<close>

record IniDocument =
  path :: string
  lines :: "ustr list"
  refs :: "((ustr \<times> ustr) \<times> IniValueRef) list"
  section_order :: "ustr list"
  loaded :: bool

datatype error = FileNotFoundError string | IndexError | OverflowError

text \<open>The regular files of the file system, by path.\<close>

type_synonym filesystem = "string \<rightharpoonup> byte list"

definition IniDocument_init :: "string \<Rightarrow> IniDocument" where
  "IniDocument_init p =
     \<lparr>path = p, lines = [], refs = [], section_order = [], loaded = False\<rparr>"

text \<open>
  The loop of \<open>load\<close> over \<open>enumerate(self.lines)\<close>; its state is
  \<open>(current_section, seen_sections, refs, section_order)\<close>.
\<close>

type_synonym scan_state =
  "ustr \<times> ustr set \<times> ((ustr \<times> ustr) \<times> IniValueRef) list \<times> ustr list"

definition scan_step :: "nat \<Rightarrow> ustr \<Rightarrow> scan_state \<Rightarrow> scan_state" where
  "scan_step idx raw st =
     (case st of (current_section, seen_sections, rf, ord) \<Rightarrow>
        (case re_match SECTION_RE raw of
           Some sm \<Rightarrow>
             (let cur = norm_section (group_of sm ''section'')
              in if cur \<notin> seen_sections
                 then (cur, insert cur seen_sections, rf, ord @ [cur])
                 else (cur, seen_sections, rf, ord))
         | None \<Rightarrow>
             (case re_match KEYVAL_RE raw of
                None \<Rightarrow> st
              | Some km \<Rightarrow>
                  (let k = norm_key (group_of km ''key'');
                       val = rstrip_chars [CR, NL] (group_of km ''val'');
                       s = norm_section current_section
                   in (current_section, seen_sections,
                       AList.update (s, k)
                         \<lparr>ref_section = s, ref_key = k, ref_value = val, line_index = idx,
                          ref_prefix = group_of km ''prefix'', ref_suffix = group_of km ''suffix''\<rparr>
                         rf,
                       ord)))))"

fun scan :: "nat \<Rightarrow> ustr list \<Rightarrow> scan_state \<Rightarrow> scan_state" where
  "scan idx [] st = st"
| "scan idx (raw # rest) st = scan (Suc idx) rest (scan_step idx raw st)"

definition load :: "filesystem \<Rightarrow> IniDocument \<Rightarrow> error + IniDocument" where
  "load fs d =
     (case fs (path d) of
        None \<Rightarrow> Inl (FileNotFoundError (path d))
      | Some bytes \<Rightarrow>
          (let ls = splitlines_keepends (read_text bytes)
           in case scan 0 ls ([], {}, [], []) of
                (current_section, seen_sections, rf, ord) \<Rightarrow>
                  Inr (d\<lparr>lines := ls, refs := rf, section_order := ord, loaded := True\<rparr>)))"

definition ensure_loaded :: "filesystem \<Rightarrow> IniDocument \<Rightarrow> error + IniDocument" where
  "ensure_loaded fs d = (if loaded d then Inr d else load fs d)"

text \<open>\<open>get\<close> returns the value, or \<open>None\<close>; the document comes back loaded.\<close>

definition get :: "filesystem \<Rightarrow> IniDocument \<Rightarrow> ustr \<Rightarrow> ustr \<Rightarrow> error + (ustr option \<times> IniDocument)" where
  "get fs d section key =
     (case ensure_loaded fs d of
        Inl e \<Rightarrow> Inl e
      | Inr d' \<Rightarrow>
          Inr (map_option ref_value (map_of (refs d') (norm_section section, norm_key key)), d'))"

fun find_section_line_index_from :: "nat \<Rightarrow> ustr list \<Rightarrow> ustr \<Rightarrow> nat option" where
  "find_section_line_index_from idx [] want = None"
| "find_section_line_index_from idx (raw # rest) want =
     (case re_match SECTION_RE raw of
        Some sm \<Rightarrow>
          if norm_section (group_of sm ''section'') = want then Some idx
          else find_section_line_index_from (Suc idx) rest want
      | None \<Rightarrow> find_section_line_index_from (Suc idx) rest want)"

definition find_section_line_index :: "IniDocument \<Rightarrow> ustr \<Rightarrow> nat option" where
  "find_section_line_index d section =
     find_section_line_index_from 0 (lines d) (norm_section section)"

text \<open>
  \<open>_find_section_end_index\<close>: the first index in \<open>range(start_idx, len(self.lines))\<close>
  whose line is a section header, else the number of lines.
\<close>

definition find_section_end_index :: "IniDocument \<Rightarrow> nat \<Rightarrow> nat" where
  "find_section_end_index d start_idx =
     (case find (\<lambda>i. re_match SECTION_RE (lines d ! i) \<noteq> None)
             [start_idx ..< length (lines d)] of
        Some i \<Rightarrow> i
      | None \<Rightarrow> length (lines d))"

text \<open>
  \<open>_reindex_refs_from\<close>: the first loop only reads \<open>self.lines\<close> at the recorded
  indices (an index out of range raises); then the document is loaded again from its
  path, which replaces \<open>lines\<close>, \<open>refs\<close> and \<open>section_order\<close>.
\<close>

definition reindex_refs_from :: "filesystem \<Rightarrow> IniDocument \<Rightarrow> nat \<Rightarrow> error + IniDocument" where
  "reindex_refs_from fs d start_idx =
     (if list_ex (\<lambda>(t, r). line_index r \<ge> start_idx \<and>
                   (line_index r \<ge> length (lines d) \<or> start_idx \<ge> length (lines d)))
           (refs d)
      then Inl IndexError
      else load fs (d\<lparr>loaded := False\<rparr>))"

definition set_value :: "filesystem \<Rightarrow> IniDocument \<Rightarrow> ustr \<Rightarrow> ustr \<Rightarrow> ustr \<Rightarrow> error + IniDocument" where
  "set_value fs d0 section key val =
     (case ensure_loaded fs d0 of
        Inl e \<Rightarrow> Inl e
      | Inr d \<Rightarrow>
          (let s = norm_section section; k = norm_key key; t = (s, k)
           in case map_of (refs d) t of
                Some r \<Rightarrow>
                  if line_index r < length (lines d)
                  then
                    (let newline = (if endswith_nl (lines d ! line_index r) then [NL] else [])
                     in Inr (d\<lparr>refs := AList.update t (r\<lparr>ref_value := val\<rparr>) (refs d),
                              lines := (lines d)[line_index r :=
                                ref_prefix r @ ref_key r @ u ''='' @ val @ ref_suffix r
                                  @ newline]\<rparr>))
                  else Inl IndexError
              | None \<Rightarrow>
                  (let insert_at =
                         (case find_section_line_index d s of
                            None \<Rightarrow> length (lines d)
                          | Some section_line_idx \<Rightarrow>
                              find_section_end_index d (section_line_idx + 1));
                       line = k @ u ''='' @ val @ [NL];
                       d1 = d\<lparr>lines := take insert_at (lines d) @ [line] @ drop insert_at (lines d),
                              refs := AList.update t
                                \<lparr>ref_section = s, ref_key = k, ref_value = val,
                                 line_index = insert_at, ref_prefix = [], ref_suffix = []\<rparr>
                                (refs d)\<rparr>
                   in case reindex_refs_from fs d1 insert_at of
                        Inl e \<Rightarrow> Inl e
                      | Inr d2 \<Rightarrow>
                          if s \<noteq> [] \<and> s \<notin> List.set (section_order d2)
                          then Inr (d2\<lparr>section_order := section_order d2 @ [s]\<rparr>)
                          else Inr d2)))"

text \<open>
  \<open>save\<close> overwrites the file at the document's path with the lines, written in text
  mode; the result is the new file system and the document.
\<close>

definition save :: "filesystem \<Rightarrow> ustr \<Rightarrow> IniDocument \<Rightarrow> error + (filesystem \<times> IniDocument)" where
  "save fs linesep d0 =
     (case ensure_loaded fs d0 of
        Inl e \<Rightarrow> Inl e
      | Inr d \<Rightarrow> Inr (fs(path d \<mapsto> write_text linesep (concat (lines d))), d))"

section \<open>Value typing and the editor form\<close>

text \<open>\<open>_is_bool_text\<close>\<close>

definition is_bool_text :: "ustr \<Rightarrow> bool option" where
  "is_bool_text v =
     (let t = lower (strip v)
      in if t \<in> {u ''true'', u ''1'', u ''yes'', u ''on''} then Some True
         else if t \<in> {u ''false'', u ''0'', u ''no'', u ''off''} then Some False
         else None)"

text \<open>
  The decimal digits of Unicode (general category Nd, Unicode 14.0 as in Python
  3.11) come in 66 runs of ten consecutive code points, the digit 0 first;
  \<open>decimal_bases\<close> lists where the runs start.  \<open>\d\<close> in a pattern over \<open>str\<close>
  matches exactly these characters, and \<open>int\<close> reads each as its digit.
\<close>

definition decimal_bases :: "nat list" where
  "decimal_bases =
     [48, 1632, 1776, 1984, 2406, 2534, 2662, 2790, 2918, 3046, 3174, 3302, 3430, 3558,
      3664, 3792, 3872, 4160, 4240, 6112, 6160, 6470, 6608, 6784, 6800, 6992, 7088, 7232,
      7248, 42528, 43216, 43264, 43472, 43504, 43600, 44016, 65296, 66720, 68912, 69734,
      69872, 69942, 70096, 70384, 70736, 70864, 71248, 71360, 71472, 71904, 72016, 72784,
      73040, 73120, 92768, 92864, 93008, 120782, 120792, 120802, 120812, 120822, 123200,
      123632, 125264, 130032]"

definition decimal_of :: "nat \<Rightarrow> nat option" where
  "decimal_of c = map_option (\<lambda>b. c - b) (find (\<lambda>b. b \<le> c \<and> c < b + 10) decimal_bases)"

definition is_digit :: "nat \<Rightarrow> bool" where
  "is_digit c \<longleftrightarrow> decimal_of c \<noteq> None"

text \<open>
  The digits of \<open>int(s, base)\<close>: a decimal digit of any script has its value, the
  letters \<open>a\<close>-\<open>z\<close> and \<open>A\<close>-\<open>Z\<close> count from 10 on; 37 for every other character.
\<close>

definition digit_value :: "nat \<Rightarrow> nat" where
  "digit_value c =
     (case decimal_of c of
        Some n \<Rightarrow> n
      | None \<Rightarrow>
          if 97 \<le> c \<and> c \<le> 122 then c - 87
          else if 65 \<le> c \<and> c \<le> 90 then c - 55
          else 37)"

definition is_hex :: "nat \<Rightarrow> bool" where
  "is_hex c \<longleftrightarrow> (48 \<le> c \<and> c \<le> 57) \<or> (97 \<le> c \<and> c \<le> 102) \<or> (65 \<le> c \<and> c \<le> 70)"

definition UNDERSCORE :: nat where "UNDERSCORE = 95"

text \<open>
  The digit loop of \<open>int\<close>: single underscores may stand between digits, none at
  the end; any other character is an error.
\<close>

fun scan_digits :: "nat \<Rightarrow> nat \<Rightarrow> nat \<Rightarrow> ustr \<Rightarrow> nat option" where
  "scan_digits base prev acc [] = (if prev = UNDERSCORE then None else Some acc)"
| "scan_digits base prev acc (c # cs) =
     (if c = UNDERSCORE
      then (if prev = UNDERSCORE then None else scan_digits base c acc cs)
      else if digit_value c < base then scan_digits base c (acc * base + digit_value c) cs
      else None)"

text \<open>
  The whitespace \<open>int\<close> skips round the number: that of \<open>str.isspace\<close> without
  U+001C to U+001F.
\<close>

definition int_space :: "nat \<Rightarrow> bool" where
  "int_space c \<longleftrightarrow> isspace c \<and> (c < 28 \<or> 31 < c)"

text \<open>
  \<open>int(s, base)\<close> for base 10 and 16, \<open>None\<close> where it raises \<open>ValueError\<close>:
  surrounding whitespace, a sign, for base 16 the prefix \<open>0x\<close> or \<open>0X\<close> and one
  underscore after it, then the digits.  In base 10 a text of more than 4300 digits
  is refused (the default of \<open>sys.set_int_max_str_digits\<close>).
\<close>

definition py_int :: "nat \<Rightarrow> ustr \<Rightarrow> int option" where
  "py_int base s =
     (let s1 = rev (dropWhile int_space (rev (dropWhile int_space s)));
          neg = (s1 \<noteq> [] \<and> hd s1 = 45);
          s2 = (if s1 \<noteq> [] \<and> (hd s1 = 45 \<or> hd s1 = 43) then tl s1 else s1);
          s3 = (if base = 16 \<and> (prefix (u ''0x'') s2 \<or> prefix (u ''0X'') s2)
                then (if prefix [UNDERSCORE] (drop 2 s2) then drop 3 s2 else drop 2 s2)
                else s2)
      in case s3 of
           [] \<Rightarrow> None
         | c # cs \<Rightarrow>
             if c = UNDERSCORE then None
             else if base = 10 \<and> 4300 < length (filter (\<lambda>c. c \<noteq> UNDERSCORE) s3) then None
             else map_option (\<lambda>n. if neg then - int n else int n) (scan_digits base 0 0 s3))"

text \<open>\<open>_parse_int\<close>\<close>

definition parse_int :: "ustr \<Rightarrow> int option" where
  "parse_int v =
     (let s = strip v
      in if prefix (u ''0x'') (lower s) then py_int 16 s else py_int 10 s)"

text \<open>\<^verbatim>\<open>_HEX_COLOR_RE = ^\s*0x(?P<hex>[0-9a-fA-F]{6}|[0-9a-fA-F]{8})\s*$\<close>\<close>

fun rep :: "nat \<Rightarrow> rx \<Rightarrow> rx" where
  "rep 0 r = Eps"
| "rep (Suc n) r = Seq r (rep n r)"

definition HEX_COLOR_RE :: rx where
  "HEX_COLOR_RE =
     seqs [Bol, StarG isspace, Atom (is_char ''0''), Atom (is_char ''x''),
           Group ''hex'' (Alt (rep 6 (Atom is_hex)) (rep 8 (Atom is_hex))),
           StarG isspace, Eol]"

text \<open>\<^verbatim>\<open>\s*-?\d+\s*\<close> and \<^verbatim>\<open>\s*-?\d+(\.\d+)?\s*\<close>, the patterns of \<open>_add_control\<close>\<close>

definition INT_RE :: rx where
  "INT_RE =
     seqs [StarG isspace, Alt (Atom (is_char ''-'')) Eps, Atom is_digit, StarG is_digit,
           StarG isspace]"

definition FLOAT_RE :: rx where
  "FLOAT_RE =
     seqs [StarG isspace, Alt (Atom (is_char ''-'')) Eps, Atom is_digit, StarG is_digit,
           Alt (Group ''1'' (seqs [Atom (is_char ''.''), Atom is_digit, StarG is_digit])) Eps,
           StarG isspace]"

record QColor =
  red :: nat
  green :: nat
  blue :: nat
  alpha :: nat

text \<open>\<open>int(hx[i:i+2], 16)\<close> on two hexadecimal digits.\<close>

definition hex_byte :: "ustr \<Rightarrow> nat \<Rightarrow> nat" where
  "hex_byte hx i = digit_value (hx ! i) * 16 + digit_value (hx ! (i + 1))"

text \<open>\<open>_parse_hex_color\<close>\<close>

definition parse_hex_color :: "ustr \<Rightarrow> QColor option" where
  "parse_hex_color v =
     (case re_match HEX_COLOR_RE v of
        None \<Rightarrow> None
      | Some m \<Rightarrow>
          (let hx = group_of m ''hex''
           in if length hx = 6
              then Some \<lparr>red = hex_byte hx 0, green = hex_byte hx 2, blue = hex_byte hx 4,
                          alpha = 255\<rparr>
              else Some \<lparr>red = hex_byte hx 2, green = hex_byte hx 4, blue = hex_byte hx 6,
                          alpha = hex_byte hx 0\<rparr>))"

text \<open>
  The controls of the form, each with what it was given: a check box its state, a
  spin box its integer, a colour editor and a line edit their text; \<open>QLabel\<close> is the
  marker stored under \<open>(section, "")\<close>.  Floating point is not modelled: the type
  \<open>'f\<close> stands for Python's \<open>float\<close>, \<open>py_float\<close> for \<open>float(s)\<close> (\<open>None\<close> where
  it raises), and a \<open>QDoubleSpinBox\<close> holds the number it was given.
\<close>

datatype 'f widget =
    QLabel
  | QCheckBox bool
  | QSpinBox int
  | QDoubleSpinBox 'f
  | ColorEditor ustr
  | QLineEdit ustr

text \<open>
  The choice of the control in \<open>_add_control\<close>.  \<open>QSpinBox.setValue\<close> takes a C
  \<open>int\<close>: a Python integer outside its range raises \<open>OverflowError\<close>.
\<close>

definition float_control :: "(ustr \<Rightarrow> 'f option) \<Rightarrow> ustr \<Rightarrow> 'f widget" where
  "float_control py_float v =
     (case py_float (strip v) of
        Some fv \<Rightarrow> if re_fullmatch FLOAT_RE v \<noteq> None then QDoubleSpinBox fv else QLineEdit v
      | None \<Rightarrow> QLineEdit v)"

definition control_for :: "(ustr \<Rightarrow> 'f option) \<Rightarrow> ustr \<Rightarrow> error + 'f widget" where
  "control_for py_float v =
     (case is_bool_text v of
        Some b \<Rightarrow> Inr (QCheckBox b)
      | None \<Rightarrow>
          (case parse_hex_color v of
             Some color \<Rightarrow> Inr (ColorEditor v)
           | None \<Rightarrow>
               (case parse_int v of
                  Some iv \<Rightarrow>
                    if prefix (u ''0x'') (lower (strip v)) \<or> re_fullmatch INT_RE v \<noteq> None
                    then (if - 2147483648 \<le> iv \<and> iv \<le> 2147483647 then Inr (QSpinBox iv)
                          else Inl OverflowError)
                    else Inr (float_control py_float v)
                | None \<Rightarrow> Inr (float_control py_float v))))"

type_synonym 'f controls = "((ustr \<times> ustr) \<times> 'f widget) list"

text \<open>\<open>_add_control\<close>: the marker of a section not seen yet, then the control.\<close>

definition add_control ::
  "(ustr \<Rightarrow> 'f option) \<Rightarrow> 'f controls \<Rightarrow> ustr \<Rightarrow> ustr \<Rightarrow> ustr \<Rightarrow> error + 'f controls" where
  "add_control py_float cs section key val =
     (let cs1 = (if map_of cs (section, []) = None then AList.update (section, []) QLabel cs
                 else cs)
      in case control_for py_float val of
           Inl e \<Rightarrow> Inl e
         | Inr w \<Rightarrow> Inr (AList.update (section, key) w cs1))"

text \<open>
  \<open>all_items\<close>: the Entries in dictionary order, sorted (stably) by the lowered
  section and key; \<open>str_lower\<close> stands for \<open>str.lower\<close>.
\<close>

definition all_items :: "(ustr \<Rightarrow> ustr) \<Rightarrow> IniDocument \<Rightarrow> IniValueRef list" where
  "all_items str_lower d =
     sort_key (\<lambda>r. (str_lower (ref_section r), str_lower (ref_key r))) (map snd (refs d))"

fun add_controls ::
  "(ustr \<Rightarrow> 'f option) \<Rightarrow> 'f controls \<Rightarrow> IniValueRef list \<Rightarrow> error + 'f controls" where
  "add_controls py_float cs [] = Inr cs"
| "add_controls py_float cs (r # rs) =
     (case add_control py_float cs (ref_section r) (ref_key r) (ref_value r) of
        Inl e \<Rightarrow> Inl e
      | Inr cs' \<Rightarrow> add_controls py_float cs' rs)"

text \<open>\<open>set_document\<close> for a document: the controls of the form.\<close>

definition set_document ::
  "filesystem \<Rightarrow> (ustr \<Rightarrow> ustr) \<Rightarrow> (ustr \<Rightarrow> 'f option) \<Rightarrow> IniDocument \<Rightarrow> error + 'f controls" where
  "set_document fs str_lower py_float d0 =
     (case ensure_loaded fs d0 of
        Inl e \<Rightarrow> Inl e
      | Inr d \<Rightarrow> add_controls py_float [] (all_items str_lower d))"

text \<open>\<open>str(n)\<close> for an integer.\<close>

fun str_nat :: "nat \<Rightarrow> ustr" where
  "str_nat n = (if n < 10 then [48 + n] else str_nat (n div 10) @ [48 + n mod 10])"

declare str_nat.simps [simp del]

definition str_int :: "int \<Rightarrow> ustr" where
  "str_int i = (if i < 0 then u ''-'' @ str_nat (nat (- i)) else str_nat (nat i))"

text \<open>
  The text \<open>_apply_controls_to_doc\<close> writes for a control; \<open>None\<close> where the loop
  goes on without writing.  \<open>fmt_double\<close> stands for the text it formats from the
  value of a \<open>QDoubleSpinBox\<close>.
\<close>

definition new_val :: "('f \<Rightarrow> ustr) \<Rightarrow> 'f widget \<Rightarrow> ustr option" where
  "new_val fmt_double w =
     (case w of
        QCheckBox b \<Rightarrow> Some (if b then u ''true'' else u ''false'')
      | QSpinBox n \<Rightarrow> Some (str_int n)
      | QDoubleSpinBox x \<Rightarrow> Some (fmt_double x)
      | ColorEditor t \<Rightarrow> Some (strip t)
      | QLineEdit t \<Rightarrow> Some t
      | QLabel \<Rightarrow> None)"

fun apply_controls_to_doc ::
  "filesystem \<Rightarrow> ('f \<Rightarrow> ustr) \<Rightarrow> IniDocument \<Rightarrow> 'f controls \<Rightarrow> error + IniDocument" where
  "apply_controls_to_doc fs fmt_double d [] = Inr d"
| "apply_controls_to_doc fs fmt_double d (((section, key), w) # cs) =
     (if key = [] then apply_controls_to_doc fs fmt_double d cs
      else case new_val fmt_double w of
             None \<Rightarrow> apply_controls_to_doc fs fmt_double d cs
           | Some v \<Rightarrow>
               (case set_value fs d section key v of
                  Inl e \<Rightarrow> Inl e
                | Inr d' \<Rightarrow> apply_controls_to_doc fs fmt_double d' cs))"

section \<open>Notions used in the statements\<close>

definition scan_init :: scan_state where
  "scan_init = ([], {}, [], [])"

definition keyval_of :: "ustr \<Rightarrow> groups option" where
  "keyval_of raw = (if re_match SECTION_RE raw = None then re_match KEYVAL_RE raw else None)"

definition section_at :: "ustr list \<Rightarrow> nat \<Rightarrow> ustr" where
  "section_at ls j = fst (scan 0 (take j ls) scan_init)"

definition entry_at :: "ustr list \<Rightarrow> nat \<Rightarrow> ((ustr \<times> ustr) \<times> IniValueRef) option" where
  "entry_at ls j =
     (case keyval_of (ls ! j) of
        None \<Rightarrow> None
      | Some km \<Rightarrow>
          Some ((norm_section (section_at ls j), norm_key (group_of km ''key'')),
                \<lparr>ref_section = norm_section (section_at ls j),
                 ref_key = norm_key (group_of km ''key''),
                 ref_value = rstrip_chars [CR, NL] (group_of km ''val''),
                 line_index = j,
                 ref_prefix = group_of km ''prefix'', ref_suffix = group_of km ''suffix''\<rparr>))"

definition scan_refs :: "ustr list \<Rightarrow> ((ustr \<times> ustr) \<times> IniValueRef) list" where
  "scan_refs ls = fst (snd (snd (scan 0 ls scan_init)))"

text \<open>
  The state every document is in once it has been loaded, and after every later
  \<open>set\<close>: the recorded line indices point into \<open>lines\<close>.
\<close>

definition well_indexed :: "IniDocument \<Rightarrow> bool" where
  "well_indexed d \<longleftrightarrow>
     loaded d \<and> list_all (\<lambda>(t, r). line_index r < length (lines d)) (refs d)"

subsection \<open>Example files\<close>

definition fsA :: filesystem where
  "fsA = [''a.ini'' \<mapsto> encode (u ''[A]\<newline>foo=1\<newline>'')]"

definition docA :: IniDocument where
  "docA =
     \<lparr>path = ''a.ini'', lines = [u ''[A]\<newline>'', u ''foo=1\<newline>''],
      refs = [((u ''A'', u ''foo''),
               \<lparr>ref_section = u ''A'', ref_key = u ''foo'', ref_value = u ''1'',
                line_index = 1, ref_prefix = [], ref_suffix = u ''\<newline>''\<rparr>)],
      section_order = [u ''A''], loaded = True\<rparr>"

definition fsAB :: filesystem where
  "fsAB = [''ab.ini'' \<mapsto> encode (u ''[A]\<newline>foo=1\<newline>[B]\<newline>bar=2\<newline>'')]"

definition fsCRLF :: filesystem where
  "fsCRLF = [''c.ini'' \<mapsto> encode (u ''a=1'' @ [CR, NL] @ u ''b=2\<newline>'')]"

definition fsDup :: filesystem where
  "fsDup = [''d.ini'' \<mapsto> encode (u ''[A]\<newline>k=1\<newline>k = 2\<newline>'')]"

definition docDup :: IniDocument where
  "docDup =
     \<lparr>path = ''d.ini'', lines = [u ''[A]\<newline>'', u ''k=1\<newline>'', u ''k = 2\<newline>''],
      refs = [((u ''A'', u ''k''),
               \<lparr>ref_section = u ''A'', ref_key = u ''k'', ref_value = u ''2'',
                line_index = 2, ref_prefix = [], ref_suffix = u ''\<newline>''\<rparr>)],
      section_order = [u ''A''], loaded = True\<rparr>"

definition docAB :: IniDocument where
  "docAB =
     \<lparr>path = ''ab.ini'',
      lines = [u ''[A]\<newline>'', u ''foo=1\<newline>'', u ''[B]\<newline>'', u ''bar=2\<newline>''],
      refs = [((u ''A'', u ''foo''),
               \<lparr>ref_section = u ''A'', ref_key = u ''foo'', ref_value = u ''1'',
                line_index = 1, ref_prefix = [], ref_suffix = u ''\<newline>''\<rparr>),
              ((u ''B'', u ''bar''),
               \<lparr>ref_section = u ''B'', ref_key = u ''bar'', ref_value = u ''2'',
                line_index = 3, ref_prefix = [], ref_suffix = u ''\<newline>''\<rparr>)],
      section_order = [u ''A'', u ''B''], loaded = True\<rparr>"

definition docAB9 :: IniDocument where
  "docAB9 =
     docAB\<lparr>lines := [u ''[A]\<newline>'', u ''foo=9\<newline>\<newline>'', u ''[B]\<newline>'', u ''bar=2\<newline>''],
           refs := [((u ''A'', u ''foo''),
               \<lparr>ref_section = u ''A'', ref_key = u ''foo'', ref_value = u ''9'',
                line_index = 1, ref_prefix = [], ref_suffix = u ''\<newline>''\<rparr>),
              ((u ''B'', u ''bar''),
               \<lparr>ref_section = u ''B'', ref_key = u ''bar'', ref_value = u ''2'',
                line_index = 3, ref_prefix = [], ref_suffix = u ''\<newline>''\<rparr>)]\<rparr>"

text \<open>A state reached by running a pattern on some suffix of a text.\<close>

definition runs_on_suffix :: "mstate \<Rightarrow> ustr \<Rightarrow> rx \<Rightarrow> bool" where
  "runs_on_suffix x raw b \<longleftrightarrow> (\<exists>p1 s1 g1. suffix s1 raw \<and> x \<in> set (run b (p1, s1, g1)))"

text \<open>Where \<open>set\<close> puts the line of a new key (\<open>insert_at\<close> in the source).\<close>

definition insert_pos :: "IniDocument \<Rightarrow> ustr \<Rightarrow> nat" where
  "insert_pos d s =
     (case find_section_line_index d s of
        None \<Rightarrow> length (lines d)
      | Some section_line_idx \<Rightarrow> find_section_end_index d (section_line_idx + 1))"

definition fsN :: filesystem where
  "fsN = [''n.ini'' \<mapsto> encode (u ''a=1'')]"

definition docN :: "ustr \<Rightarrow> ustr \<Rightarrow> IniDocument" where
  "docN line v =
     \<lparr>path = ''n.ini'', lines = [line],
      refs = [(([], u ''a''),
               \<lparr>ref_section = [], ref_key = u ''a'', ref_value = v,
                line_index = 0, ref_prefix = [], ref_suffix = []\<rparr>)],
      section_order = [], loaded = True\<rparr>"

text \<open>A Unicode scalar value: a code point that is not a surrogate.\<close>

definition is_scalar :: "nat \<Rightarrow> bool" where
  "is_scalar c \<longleftrightarrow> c < 1114112 \<and> (c < 55296 \<or> 57344 \<le> c)"

definition fsBad :: filesystem where
  "fsBad = [''x.ini'' \<mapsto> [0xFF]]"

definition docBad :: IniDocument where
  "docBad = \<lparr>path = ''x.ini'', lines = [[REPL]], refs = [], section_order = [], loaded = True\<rparr>"

definition docCRLF :: "ustr \<Rightarrow> ustr \<Rightarrow> IniDocument" where
  "docCRLF line v =
     \<lparr>path = ''c.ini'', lines = [line, u ''b=2\<newline>''],
      refs = [(([], u ''a''),
               \<lparr>ref_section = [], ref_key = u ''a'', ref_value = v,
                line_index = 0, ref_prefix = [], ref_suffix = u ''\<newline>''\<rparr>),
              (([], u ''b''),
               \<lparr>ref_section = [], ref_key = u ''b'', ref_value = u ''2'',
                line_index = 1, ref_prefix = [], ref_suffix = u ''\<newline>''\<rparr>)],
      section_order = [], loaded = True\<rparr>"

definition fsC :: filesystem where
  "fsC = [''n.ini'' \<mapsto> encode (u ''; note\<newline>[A]\<newline>foo=1\<newline>???\<newline>'')]"

text \<open>What the write-back stores under a pair, if anything.\<close>

definition written :: "('f \<Rightarrow> ustr) \<Rightarrow> 'f controls \<Rightarrow> ustr \<times> ustr \<Rightarrow> ustr option" where
  "written fmt cs t =
     (if snd t = [] then None
      else case map_of cs t of None \<Rightarrow> None | Some w \<Rightarrow> new_val fmt w)"

definition rewrite_ref :: "ustr option \<Rightarrow> IniValueRef \<Rightarrow> IniValueRef" where
  "rewrite_ref vo r = (case vo of None \<Rightarrow> r | Some v \<Rightarrow> r\<lparr>ref_value := v\<rparr>)"

text \<open>A \<open>float\<close> that accepts nothing, and a formatter, for the examples without floats.\<close>

definition no_float :: "ustr \<Rightarrow> unit option" where
  "no_float s = None"

definition no_fmt :: "unit \<Rightarrow> ustr" where
  "no_fmt x = []"

definition fsT :: "ustr \<Rightarrow> filesystem" where
  "fsT v = [''t.ini'' \<mapsto> encode (u ''a='' @ v @ [NL])]"

definition docT :: "ustr \<Rightarrow> ustr \<Rightarrow> IniDocument" where
  "docT line v =
     \<lparr>path = ''t.ini'', lines = [line],
      refs = [(([], u ''a''),
               \<lparr>ref_section = [], ref_key = u ''a'', ref_value = v,
                line_index = 0, ref_prefix = [], ref_suffix = [NL]\<rparr>)],
      section_order = [], loaded = True\<rparr>"

text \<open>
  What a pattern matches, without the matcher: \<open>matches r p t rest\<close> says that \<open>r\<close>
  matches the text \<open>t\<close> at position \<open>p\<close> when \<open>rest\<close> follows.
\<close>

fun matches :: "rx \<Rightarrow> nat \<Rightarrow> ustr \<Rightarrow> ustr \<Rightarrow> bool" where
  "matches (Atom c) p t rest = (case t of [x] \<Rightarrow> c x | _ \<Rightarrow> False)"
| "matches (Seq a b) p t rest =
     list_ex (\<lambda>n. matches a p (take n t) (drop n t @ rest) \<and> matches b (p + n) (drop n t) rest)
       [0 ..< Suc (length t)]"
| "matches (Alt a b) p t rest = (matches a p t rest \<or> matches b p t rest)"
| "matches (StarG c) p t rest = list_all c t"
| "matches (StarL c) p t rest = list_all c t"
| "matches (Group n r) p t rest = matches r p t rest"
| "matches Eps p t rest = (t = [])"
| "matches Bol p t rest = (t = [] \<and> p = 0)"
| "matches Eol p t rest = (t = [] \<and> (rest = [] \<or> rest = [NL]))"

section \<open>Evaluation\<close>

lemmas str_defs = u_def NL_def CR_def isspace_def is_linebreak_def is_char_def key_char_def
  section_char_def any_char_def lstrip_def rstrip_def strip_def rstrip_chars_def
  endswith_nl_def norm_section_def norm_key_def lower_def lower_char_def

lemmas io_defs = decode_def encode_def utf8_encode_char_def read_text_def write_text_def
  translate_newlines_def splitlines_keepends_def is_cont_def REPL_def bad_second3_def
  bad_second4_def

lemmas rx_defs = re_match_def re_fullmatch_def SECTION_RE_def KEYVAL_RE_def seqs_def group_of_def

lemmas doc_defs = load_def IniDocument_init_def scan_step_def ensure_loaded_def get_def
  set_value_def save_def find_section_line_index_def find_section_end_index_def
  reindex_refs_from_def Let_def

lemma rep_numeral: "rep (numeral k) r = Seq r (rep (pred_numeral k) r)"
  by (simp add: numeral_eq_Suc)

lemmas gui_defs = rep_numeral is_bool_text_def decimal_bases_def decimal_of_def digit_value_def
  is_digit_def is_hex_def UNDERSCORE_def int_space_def
  py_int_def parse_int_def HEX_COLOR_RE_def INT_RE_def FLOAT_RE_def hex_byte_def
  parse_hex_color_def float_control_def control_for_def add_control_def all_items_def
  set_document_def str_int_def new_val_def

section \<open>The scan of \<open>load\<close>\<close>

lemma scan_append: "scan i (xs @ ys) st = scan (i + length xs) ys (scan i xs st)"
  by (induction xs arbitrary: i st) auto

lemma scan_snoc: "scan 0 (ls @ [x]) st = scan_step (length ls) x (scan 0 ls st)"
  by (simp add: scan_append)

lemma scan_step_refs:
  "fst (snd (snd (scan_step i x st))) =
     (case keyval_of x of
        None \<Rightarrow> fst (snd (snd st))
      | Some km \<Rightarrow>
          AList.update (norm_section (fst st), norm_key (group_of km ''key''))
            \<lparr>ref_section = norm_section (fst st),
             ref_key = norm_key (group_of km ''key''),
             ref_value = rstrip_chars [CR, NL] (group_of km ''val''),
             line_index = i,
             ref_prefix = group_of km ''prefix'', ref_suffix = group_of km ''suffix''\<rparr>
            (fst (snd (snd st))))"
  by (cases st) (auto simp: scan_step_def keyval_of_def Let_def split: option.splits)

lemma entry_at_snoc_old: "j < length ls \<Longrightarrow> entry_at (ls @ [x]) j = entry_at ls j"
  by (simp add: entry_at_def section_at_def nth_append split: option.splits)

lemma entry_at_snoc_new:
  "entry_at (ls @ [x]) (length ls) =
     (case keyval_of x of
        None \<Rightarrow> None
      | Some km \<Rightarrow>
          Some ((norm_section (fst (scan 0 ls scan_init)), norm_key (group_of km ''key'')),
                \<lparr>ref_section = norm_section (fst (scan 0 ls scan_init)),
                 ref_key = norm_key (group_of km ''key''),
                 ref_value = rstrip_chars [CR, NL] (group_of km ''val''),
                 line_index = length ls,
                 ref_prefix = group_of km ''prefix'', ref_suffix = group_of km ''suffix''\<rparr>))"
  by (simp add: entry_at_def section_at_def split: option.splits)

lemma scan_refs_snoc:
  "scan_refs (ls @ [x]) =
     (case entry_at (ls @ [x]) (length ls) of
        None \<Rightarrow> scan_refs ls
      | Some (t, r) \<Rightarrow> AList.update t r (scan_refs ls))"
  by (simp add: scan_refs_def scan_snoc scan_step_refs entry_at_snoc_new split: option.splits)

text \<open>The entry recorded for a pair is the one made by the last line that defines it.\<close>

lemma scan_refs_last:
  "j < length ls \<Longrightarrow> entry_at ls j = Some (t, r) \<Longrightarrow>
   (\<And>m r'. j < m \<Longrightarrow> m < length ls \<Longrightarrow> entry_at ls m \<noteq> Some (t, r')) \<Longrightarrow>
   map_of (scan_refs ls) t = Some r"
proof (induction ls rule: rev_induct)
  case Nil
  then show ?case by simp
next
  case (snoc x ls)
  show ?case
  proof (cases "j = length ls")
    case True
    with snoc.prems(2) show ?thesis
      by (simp add: scan_refs_snoc update_conv')
  next
    case False
    with snoc.prems(1) have j: "j < length ls" by simp
    have e: "entry_at ls j = Some (t, r)"
      using snoc.prems(2) j by (simp add: entry_at_snoc_old)
    have later: "\<And>m r'. j < m \<Longrightarrow> m < length ls \<Longrightarrow> entry_at ls m \<noteq> Some (t, r')"
    proof -
      fix m r' assume "j < m" "m < length ls"
      then show "entry_at ls m \<noteq> Some (t, r')"
        using snoc.prems(3) [of m r'] by (simp add: entry_at_snoc_old)
    qed
    have ih: "map_of (scan_refs ls) t = Some r"
      using snoc.IH [OF j e later] .
    have new: "\<And>r'. entry_at (ls @ [x]) (length ls) \<noteq> Some (t, r')"
      using snoc.prems(3) [of "length ls"] j by simp
    show ?thesis
    proof (cases "entry_at (ls @ [x]) (length ls)")
      case None
      then show ?thesis using ih by (simp add: scan_refs_snoc)
    next
      case (Some a)
      obtain t' r' where a: "a = (t', r')" by (cases a)
      with Some new have "t' \<noteq> t" by auto
      then show ?thesis using ih Some a by (simp add: scan_refs_snoc update_conv')
    qed
  qed
qed

text \<open>Every recorded entry was made by a key line of the text.\<close>

lemma scan_refs_origin:
  "map_of (scan_refs ls) t = Some r \<Longrightarrow> \<exists>j < length ls. entry_at ls j = Some (t, r)"
proof (induction ls arbitrary: r rule: rev_induct)
  case Nil
  then show ?case by (simp add: scan_refs_def scan_init_def)
next
  case (snoc x ls)
  show ?case
  proof (cases "entry_at (ls @ [x]) (length ls)")
    case None
    with snoc.prems have "map_of (scan_refs ls) t = Some r" by (simp add: scan_refs_snoc)
    then obtain j where "j < length ls" "entry_at ls j = Some (t, r)"
      using snoc.IH by blast
    then show ?thesis
      by (metis entry_at_snoc_old length_append_singleton less_Suc_eq)
  next
    case (Some a)
    obtain t' r' where a: "a = (t', r')" by (cases a)
    show ?thesis
    proof (cases "t' = t")
      case True
      with Some a snoc.prems have "r = r'" by (simp add: scan_refs_snoc update_conv')
      with Some a True show ?thesis by auto
    next
      case False
      with Some a snoc.prems have "map_of (scan_refs ls) t = Some r"
        by (simp add: scan_refs_snoc update_conv')
      then obtain j where "j < length ls" "entry_at ls j = Some (t, r)"
        using snoc.IH by blast
      then show ?thesis
        by (metis entry_at_snoc_old length_append_singleton less_Suc_eq)
    qed
  qed
qed

lemma entry_at_index: "entry_at ls j = Some (t, r) \<Longrightarrow> line_index r = j"
  by (auto simp: entry_at_def split: option.splits)

lemma load_Inr:
  "load fs d = Inr d' \<longleftrightarrow>
     (\<exists>bytes. fs (path d) = Some bytes \<and>
        d' = d\<lparr>lines := splitlines_keepends (read_text bytes),
               refs := scan_refs (splitlines_keepends (read_text bytes)),
               section_order := snd (snd (snd (scan 0 (splitlines_keepends (read_text bytes)) scan_init))),
               loaded := True\<rparr>)"
  by (auto simp: load_def scan_refs_def scan_init_def Let_def split: option.splits prod.splits)

lemma load_refs: "load fs d = Inr d' \<Longrightarrow> refs d' = scan_refs (lines d')"
  by (auto simp: load_Inr)

lemma load_loaded: "load fs d = Inr d' \<Longrightarrow> loaded d'"
  by (auto simp: load_Inr)

lemma load_index_bound:
  "load fs d = Inr d' \<Longrightarrow> map_of (refs d') t = Some r \<Longrightarrow> line_index r < length (lines d')"
  using scan_refs_origin entry_at_index by (fastforce simp: load_refs)

lemma set_value_existing:
  "loaded d \<Longrightarrow> map_of (refs d) (norm_section s, norm_key k) = Some r \<Longrightarrow>
   line_index r < length (lines d) \<Longrightarrow>
   set_value fs d s k v =
     Inr (d\<lparr>refs := AList.update (norm_section s, norm_key k) (r\<lparr>ref_value := v\<rparr>) (refs d),
            lines := (lines d)[line_index r :=
              ref_prefix r @ ref_key r @ u ''='' @ v @ ref_suffix r
                @ (if endswith_nl (lines d ! line_index r) then [NL] else [])]\<rparr>)"
  by (simp add: set_value_def ensure_loaded_def Let_def)

section \<open>The matcher\<close>

lemma star_g_sound:
  "(p', s', g') \<in> set (star_g c p s g) \<Longrightarrow>
     \<exists>t. s = t @ s' \<and> p' = p + length t \<and> g' = g \<and> list_all c t"
proof (induction s arbitrary: p)
  case Nil
  then show ?case by simp
next
  case (Cons x xs)
  from Cons.prems consider
    (more) "c x" "(p', s', g') \<in> set (star_g c (Suc p) xs g)" | (stop) "(p', s', g') = (p, x # xs, g)"
    by (auto split: if_splits)
  then show ?case
  proof cases
    case more
    then obtain t where "xs = t @ s'" "p' = Suc p + length t" "g' = g" "list_all c t"
      using Cons.IH by blast
    with more(1) show ?thesis by (intro exI [of _ "x # t"]) simp
  next
    case stop
    then show ?thesis by simp
  qed
qed

lemma star_l_set: "set (star_l c p s g) = set (star_g c p s g)"
  by (induction s arbitrary: p) auto

lemma run_sound:
  "(p', s', g') \<in> set (run r (p, s, g)) \<Longrightarrow> \<exists>t. s = t @ s' \<and> p' = p + length t"
proof (induction r arbitrary: p s g p' s' g')
  case (Atom c)
  then show ?case by (auto split: list.splits if_splits)
next
  case (Seq a b)
  from Seq.prems obtain m where m: "m \<in> set (run a (p, s, g))" "(p', s', g') \<in> set (run b m)"
    by auto
  obtain pm sm gm where mm: "m = (pm, sm, gm)" by (cases m)
  from Seq.IH(1) m(1) mm obtain t1 where t1: "s = t1 @ sm" "pm = p + length t1" by blast
  from Seq.IH(2) m(2) mm obtain t2 where t2: "sm = t2 @ s'" "p' = pm + length t2" by blast
  show ?case using t1 t2 by (intro exI [of _ "t1 @ t2"]) simp
next
  case (Alt a b)
  then show ?case by auto
next
  case (StarG c)
  then show ?case using star_g_sound by fastforce
next
  case (StarL c)
  then show ?case using star_g_sound by (fastforce simp: star_l_set)
next
  case (Group n r)
  then show ?case by auto
next
  case Eps
  then show ?case by simp
next
  case Bol
  then show ?case by (auto split: if_splits)
next
  case Eol
  then show ?case by (auto split: if_splits)
qed

lemma run_suffix: "(p', s', g') \<in> set (run r (p, s, g)) \<Longrightarrow> suffix s' s"
  using run_sound by (fastforce simp: suffix_def)

lemma in_run_Seq: "x \<in> set (run (Seq a b) st) \<longleftrightarrow> (\<exists>m \<in> set (run a st). x \<in> set (run b m))"
  by simp

lemma in_run_Group:
  "x \<in> set (run (Group n r) (p, s, g)) \<longleftrightarrow>
     (\<exists>p' s' g'. (p', s', g') \<in> set (run r (p, s, g)) \<and> x = (p', s', (n, take (p' - p) s) # g'))"
  by (simp add: image_iff) (metis (no_types, lifting) case_prod_conv prod_cases3)

lemma in_run_Eol_Eps:
  "x \<in> set (run (Seq Eol Eps) (p, s, g)) \<longleftrightarrow> x = (p, s, g) \<and> (s = [] \<or> s = [NL])"
  by auto

lemma runs_on_suffix_Seq: "runs_on_suffix x raw (Seq a b) \<Longrightarrow> runs_on_suffix x raw b"
proof -
  assume "runs_on_suffix x raw (Seq a b)"
  then obtain p s g where s: "suffix s raw" and x: "x \<in> set (run (Seq a b) (p, s, g))"
    unfolding runs_on_suffix_def by blast
  from x obtain m where m: "m \<in> set (run a (p, s, g))" "x \<in> set (run b m)"
    unfolding in_run_Seq by blast
  obtain p1 s1 g1 where mm: "m = (p1, s1, g1)" by (cases m)
  from m(1) mm have "suffix s1 s" using run_suffix by blast
  with s have "suffix s1 raw" by (meson suffix_order.trans)
  with m(2) mm show ?thesis unfolding runs_on_suffix_def by blast
qed

lemma run_group_eol:
  assumes "(px, sx, gx) \<in> set (run (Seq (Group n (StarG c)) (Seq Eol Eps)) (p, s, g))"
  shows "\<exists>t. gx = (n, t) # g \<and> s = t @ sx \<and> (sx = [] \<or> sx = [NL])"
proof -
  from assms obtain m where m: "m \<in> set (run (Group n (StarG c)) (p, s, g))"
    "(px, sx, gx) \<in> set (run (Seq Eol Eps) m)"
    unfolding in_run_Seq by blast
  from m(1) obtain p' s' g' where st: "(p', s', g') \<in> set (run (StarG c) (p, s, g))"
    "m = (p', s', (n, take (p' - p) s) # g')"
    unfolding in_run_Group by blast
  from st(1) have "(p', s', g') \<in> set (star_g c p s g)" by simp
  from star_g_sound [OF this] obtain t where t: "s = t @ s'" "p' = p + length t" "g' = g"
    by blast
  from m(2) have "(px, sx, gx) = m \<and> (s' = [] \<or> s' = [NL])"
    unfolding st(2) in_run_Eol_Eps by blast
  with st(2) t show ?thesis by simp
qed

lemma KEYVAL_RE_unfold:
  "KEYVAL_RE = Seq Bol (Seq (Group ''prefix'' (StarG isspace))
        (Seq (Group ''key'' (Seq (Atom key_char) (StarL key_char)))
        (Seq (StarG isspace) (Seq (Atom (is_char ''='')) (Seq (StarG isspace)
        (Seq (Group ''val'' (StarL any_char))
        (Seq (Group ''suffix'' (StarG isspace)) (Seq Eol Eps))))))))"
  by (simp add: KEYVAL_RE_def seqs_def)

lemma re_match_in_run:
  "re_match r raw = Some km \<Longrightarrow> \<exists>p s. (p, s, km) \<in> set (run r (0, raw, []))"
  unfolding re_match_def by (cases "run r (0, raw, [])") auto

lemma keyval_suffix:
  assumes "re_match KEYVAL_RE raw = Some km"
  shows "\<exists>s'. suffix (group_of km ''suffix'' @ s') raw \<and> (s' = [] \<or> s' = [NL])"
proof -
  from re_match_in_run [OF assms] obtain p s where
    "(p, s, km) \<in> set (run KEYVAL_RE (0, raw, []))" by blast
  then have "runs_on_suffix (p, s, km) raw KEYVAL_RE"
    unfolding runs_on_suffix_def by blast
  then have "runs_on_suffix (p, s, km) raw (Seq (Group ''suffix'' (StarG isspace)) (Seq Eol Eps))"
    unfolding KEYVAL_RE_unfold
    by (rule runs_on_suffix_Seq [THEN runs_on_suffix_Seq, THEN runs_on_suffix_Seq,
          THEN runs_on_suffix_Seq, THEN runs_on_suffix_Seq, THEN runs_on_suffix_Seq,
          THEN runs_on_suffix_Seq])
  then obtain p7 s7 g7 where s7: "suffix s7 raw"
    and x: "(p, s, km) \<in> set (run (Seq (Group ''suffix'' (StarG isspace)) (Seq Eol Eps)) (p7, s7, g7))"
    unfolding runs_on_suffix_def by blast
  from run_group_eol [OF x] obtain t where
    "km = (''suffix'', t) # g7" "s7 = t @ s" "s = [] \<or> s = [NL]" by auto
  with s7 show ?thesis by (auto simp: group_of_def)
qed

lemma keyval_suffix_no_nl:
  assumes "re_match KEYVAL_RE raw = Some km" and "\<not> endswith_nl raw"
  shows "\<not> endswith_nl (group_of km ''suffix'')"
proof -
  from keyval_suffix [OF assms(1)] obtain s' pre where
    r: "raw = pre @ group_of km ''suffix'' @ s'" and s': "s' = [] \<or> s' = [NL]"
    by (auto simp: suffix_def)
  from s' assms(2) r have "s' = []" by (auto simp: endswith_nl_def)
  with r assms(2) show ?thesis by (auto simp: endswith_nl_def)
qed

section \<open>The matcher finds what the pattern matches\<close>

lemma matches_Seq:
  "matches (Seq a b) p t rest \<longleftrightarrow>
     (\<exists>t1 t2. t = t1 @ t2 \<and> matches a p t1 (t2 @ rest) \<and> matches b (p + length t1) t2 rest)"
proof
  assume "matches (Seq a b) p t rest"
  then have "\<exists>n \<in> set [0 ..< Suc (length t)].
      matches a p (take n t) (drop n t @ rest) \<and> matches b (p + n) (drop n t) rest"
    by (simp only: matches.simps list_ex_iff)
  then obtain n where n0: "n \<in> set [0 ..< Suc (length t)]"
    and n12: "matches a p (take n t) (drop n t @ rest)" "matches b (p + n) (drop n t) rest"
    by blast
  from n0 have "n \<le> length t" by (simp del: upt_Suc)
  note n = this n12
  show "\<exists>t1 t2. t = t1 @ t2 \<and> matches a p t1 (t2 @ rest) \<and> matches b (p + length t1) t2 rest"
    using n by (rule_tac x = "take n t" in exI, rule_tac x = "drop n t" in exI) (simp add: min_absorb2)
next
  assume "\<exists>t1 t2. t = t1 @ t2 \<and> matches a p t1 (t2 @ rest) \<and> matches b (p + length t1) t2 rest"
  then obtain t1 t2 where "t = t1 @ t2" "matches a p t1 (t2 @ rest)"
    "matches b (p + length t1) t2 rest" by blast
  then have "\<exists>n \<in> set [0 ..< Suc (length t)].
      matches a p (take n t) (drop n t @ rest) \<and> matches b (p + n) (drop n t) rest"
    by (intro bexI [of _ "length t1"]) (simp_all del: upt_Suc)
  then show "matches (Seq a b) p t rest"
    by (simp only: matches.simps list_ex_iff)
qed

declare matches.simps(2) [simp del]

lemma star_g_self: "(p, s, g) \<in> set (star_g c p s g)"
  by (cases s) auto

lemma star_g_complete:
  "list_all c t \<Longrightarrow> (p + length t, rest, g) \<in> set (star_g c p (t @ rest) g)"
proof (induction t arbitrary: p)
  case Nil
  show ?case by (simp add: star_g_self)
next
  case (Cons x t)
  from Cons.IH [of "Suc p"] Cons.prems
  have "(Suc p + length t, rest, g) \<in> set (star_g c (Suc p) (t @ rest) g)" by simp
  with Cons.prems show ?case by simp
qed

lemma run_matches:
  "(p', s', g') \<in> set (run r (p, s, g)) \<Longrightarrow>
     \<exists>t. s = t @ s' \<and> p' = p + length t \<and> matches r p t s'"
proof (induction r arbitrary: p s g p' s' g')
  case (Atom c)
  then show ?case by (auto split: list.splits if_splits)
next
  case (Seq a b)
  from Seq.prems obtain m where m: "m \<in> set (run a (p, s, g))" "(p', s', g') \<in> set (run b m)"
    unfolding in_run_Seq by blast
  obtain pm sm gm where mm: "m = (pm, sm, gm)" by (cases m)
  from Seq.IH(1) m(1) mm obtain t1 where t1: "s = t1 @ sm" "pm = p + length t1"
    "matches a p t1 sm" by blast
  from Seq.IH(2) m(2) mm obtain t2 where t2: "sm = t2 @ s'" "p' = pm + length t2"
    "matches b pm t2 s'" by blast
  have "matches (Seq a b) p (t1 @ t2) s'"
    unfolding matches_Seq using t1 t2 by blast
  with t1 t2 show ?case by (intro exI [of _ "t1 @ t2"]) simp
next
  case (Alt a b)
  then show ?case by fastforce
next
  case (StarG c)
  then show ?case using star_g_sound by fastforce
next
  case (StarL c)
  then show ?case using star_g_sound by (fastforce simp: star_l_set)
next
  case (Group n r)
  from Group.prems obtain p1 s1 g1 where "(p1, s1, g1) \<in> set (run r (p, s, g))"
    "(p', s', g') = (p1, s1, (n, take (p1 - p) s) # g1)"
    unfolding in_run_Group by blast
  with Group.IH show ?case by fastforce
next
  case Eps
  then show ?case by simp
next
  case Bol
  then show ?case by (auto split: if_splits)
next
  case Eol
  then show ?case by (auto split: if_splits)
qed

lemma matches_run:
  "matches r p t rest \<Longrightarrow> \<exists>g'. (p + length t, rest, g') \<in> set (run r (p, t @ rest, g))"
proof (induction r arbitrary: p t rest g)
  case (Atom c)
  then show ?case by (auto split: list.splits)
next
  case (Seq a b)
  from Seq.prems obtain t1 t2 where t: "t = t1 @ t2" "matches a p t1 (t2 @ rest)"
    "matches b (p + length t1) t2 rest"
    unfolding matches_Seq by blast
  from Seq.IH(1) [OF t(2), of g] obtain g1 where
    g1: "(p + length t1, t2 @ rest, g1) \<in> set (run a (p, t1 @ t2 @ rest, g))" by blast
  from Seq.IH(2) [OF t(3), of g1] obtain g2 where
    g2: "(p + length t1 + length t2, rest, g2) \<in> set (run b (p + length t1, t2 @ rest, g1))"
    by blast
  have "(p + length t, rest, g2) \<in> set (run (Seq a b) (p, t @ rest, g))"
    unfolding in_run_Seq using g1 g2 t(1) by (auto simp: add.assoc)
  then show ?case by blast
next
  case (Alt a b)
  then show ?case by fastforce
next
  case (StarG c)
  then show ?case using star_g_complete by fastforce
next
  case (StarL c)
  then show ?case using star_g_complete by (fastforce simp: star_l_set)
next
  case (Group n r)
  from Group.IH [of p t rest g] Group.prems obtain g1 where
    "(p + length t, rest, g1) \<in> set (run r (p, t @ rest, g))" by auto
  then have "(p + length t, rest, (n, take (p + length t - p) (t @ rest)) # g1)
               \<in> set (run (Group n r) (p, t @ rest, g))"
    unfolding in_run_Group by blast
  then show ?case by blast
next
  case Eps
  then show ?case by simp
next
  case Bol
  then show ?case by simp
next
  case Eol
  then show ?case by auto
qed

lemma re_match_iff:
  "re_match r v \<noteq> None \<longleftrightarrow> (\<exists>t rest. v = t @ rest \<and> matches r 0 t rest)"
proof
  assume "re_match r v \<noteq> None"
  then obtain km where "re_match r v = Some km" by blast
  from re_match_in_run [OF this] obtain p s where "(p, s, km) \<in> set (run r (0, v, []))" by blast
  from run_matches [OF this] show "\<exists>t rest. v = t @ rest \<and> matches r 0 t rest" by blast
next
  assume "\<exists>t rest. v = t @ rest \<and> matches r 0 t rest"
  then obtain t rest where t: "v = t @ rest" "matches r 0 t rest" by blast
  from matches_run [OF t(2), of "[]"] t(1) have "run r (0, v, []) \<noteq> []" by auto
  then show "re_match r v \<noteq> None"
    by (auto simp: re_match_def split: list.splits)
qed

lemma re_fullmatch_iff: "re_fullmatch r v \<noteq> None \<longleftrightarrow> matches r 0 v []"
proof
  assume "re_fullmatch r v \<noteq> None"
  then have "filter (\<lambda>(p, s', g). s' = []) (run r (0, v, [])) \<noteq> []"
    by (auto simp: re_fullmatch_def split: list.splits)
  then obtain p g where "(p, [], g) \<in> set (run r (0, v, []))"
    by (auto simp: filter_empty_conv)
  from run_matches [OF this] show "matches r 0 v []" by auto
next
  assume "matches r 0 v []"
  from matches_run [OF this, of "[]"] obtain g where
    "(length v, [], g) \<in> set (run r (0, v, []))" by auto
  then have "filter (\<lambda>(p, s', g). s' = []) (run r (0, v, [])) \<noteq> []"
    by (auto simp: filter_empty_conv)
  then show "re_fullmatch r v \<noteq> None"
    by (auto simp: re_fullmatch_def split: list.splits)
qed

section \<open>Text input and output\<close>

lemma concat_splitlines_acc: "concat (splitlines_acc acc s) = rev acc @ s"
proof (induction acc s rule: splitlines_acc.induct)
  case (1 acc)
  show ?case by simp
next
  case (2 acc c cs)
  show ?case
  proof (cases "c = CR \<and> cs \<noteq> [] \<and> hd cs = NL")
    case True
    then obtain cs' where "cs = NL # cs'" by (cases cs) auto
    with True 2 show ?thesis by simp
  next
    case False
    with 2 show ?thesis by (cases "is_linebreak c") auto
  qed
qed

lemma concat_splitlines: "concat (splitlines_keepends s) = s"
  by (simp add: splitlines_keepends_def concat_splitlines_acc)

lemma universal_translate:
  assumes "CR \<notin> set t" and "linesep = [NL] \<or> linesep = [CR, NL]"
  shows "universal_newlines (translate_newlines linesep t) = t"
  using assms(1)
proof (induction t)
  case Nil
  show ?case by (simp add: translate_newlines_def)
next
  case (Cons c t)
  then have ih: "universal_newlines (translate_newlines linesep t) = t" by simp
  have tr: "translate_newlines linesep (c # t) =
              (if c = NL then linesep else [c]) @ translate_newlines linesep t"
    by (simp add: translate_newlines_def)
  from Cons.prems have c: "c \<noteq> CR" by auto
  show ?case
  proof (cases "c = NL")
    case True
    with assms(2) ih tr show ?thesis by (auto simp: NL_def CR_def)
  next
    case False
    with c ih tr show ?thesis by simp
  qed
qed

lemma mod64_less128: "(x::nat) mod 64 < 128"
  using mod_less_divisor [of 64 x] by linarith

lemma split64:
  fixes c :: nat
  obtains q m where "c = 64 * q + m" "m < 64" "c div 64 = q" "c mod 64 = m"
  using mod_less_divisor [of 64 c] mult_div_mod_eq [of 64 c] by (metis zero_less_numeral)

lemma decode_encode_char1: "c < 128 \<Longrightarrow> utf8_decode (utf8_encode_char c @ bs) = c # utf8_decode bs"
  by (simp add: utf8_encode_char_def)

lemma decode_encode_char2:
  assumes "128 \<le> c" "c < 2048"
  shows "utf8_decode (utf8_encode_char c @ bs) = c # utf8_decode bs"
proof -
  obtain q m where qm: "c = 64 * q + m" "m < 64" "c div 64 = q" "c mod 64 = m"
    by (rule split64)
  have e: "utf8_encode_char c = [192 + q, 128 + m]"
    using assms qm(3,4) by (auto simp: utf8_encode_char_def)
  have q: "2 \<le> q" "q < 32" using assms qm(1,2) by linarith+
  have r: "(192 + q - 192) * 64 + (128 + m - 128) = c" using qm(1) by simp
  have rng: "\<not> 192 + q < 128" "\<not> 192 + q < 194" "192 + q < 224" using q by linarith+
  have c2: "is_cont (128 + m)" using qm(2) by (simp add: is_cont_def)
  show ?thesis
    unfolding e using rng c2 r by (simp del: add_diff_cancel_left' add_diff_cancel_right' diff_add_inverse diff_add_inverse2)
qed

lemma decode_encode_char3:
  assumes "2048 \<le> c" "c < 65536" "c < 55296 \<or> 57344 \<le> c"
  shows "utf8_decode (utf8_encode_char c @ bs) = c # utf8_decode bs"
proof -
  obtain q m0 where qm: "c = 64 * q + m0" "m0 < 64" "c div 64 = q" "c mod 64 = m0"
    by (rule split64)
  obtain q2 m1 where qm2: "q = 64 * q2 + m1" "m1 < 64" "q div 64 = q2" "q mod 64 = m1"
    by (rule split64)
  have d: "c div 4096 = q2"
    using div_mult2_eq [of c 64 64] qm(3) qm2(3) by simp
  have e: "utf8_encode_char c = [224 + q2, 128 + m1, 128 + m0]"
    using assms qm(3,4) qm2(4) d by (auto simp: utf8_encode_char_def)
  have q2: "q2 < 16" using assms(2) qm(1) qm2(1) by linarith
  have c2: "is_cont (128 + m1)" "is_cont (128 + m0)" using qm(2) qm2(2) by (simp_all add: is_cont_def)
  have nb: "\<not> bad_second3 (224 + q2) (128 + m1)"
  proof -
    have "q2 = 0 \<Longrightarrow> 32 \<le> m1" using assms(1) qm(1,2) qm2(1) by linarith
    moreover have "q2 = 13 \<Longrightarrow> m1 < 32" using assms(3) qm(1,2) qm2(1,2) by linarith
    ultimately show ?thesis unfolding bad_second3_def by (cases "128 + m1 < 160") auto
  qed
  have r: "(224 + q2 - 224) * 4096 + (128 + m1 - 128) * 64 + (128 + m0 - 128) = c"
    using qm(1) qm2(1) by simp
  have rng: "\<not> 224 + q2 < 128" "\<not> 224 + q2 < 194" "\<not> 224 + q2 < 224" "224 + q2 < 240"
    using q2 by linarith+
  show ?thesis
    unfolding e using c2 nb r rng by (simp del: add_diff_cancel_left' add_diff_cancel_right' diff_add_inverse diff_add_inverse2)
qed

lemma decode_encode_char4:
  assumes "65536 \<le> c" "c < 1114112"
  shows "utf8_decode (utf8_encode_char c @ bs) = c # utf8_decode bs"
proof -
  obtain q m0 where qm: "c = 64 * q + m0" "m0 < 64" "c div 64 = q" "c mod 64 = m0"
    by (rule split64)
  obtain q2 m1 where qm2: "q = 64 * q2 + m1" "m1 < 64" "q div 64 = q2" "q mod 64 = m1"
    by (rule split64)
  obtain q3 m2 where qm3: "q2 = 64 * q3 + m2" "m2 < 64" "q2 div 64 = q3" "q2 mod 64 = m2"
    by (rule split64)
  have d: "c div 4096 = q2"
    using div_mult2_eq [of c 64 64] qm(3) qm2(3) by simp
  have d2: "c div 262144 = q3"
    using div_mult2_eq [of c 4096 64] d qm3(3) by simp
  have e: "utf8_encode_char c = [240 + q3, 128 + m2, 128 + m1, 128 + m0]"
    using assms qm(3,4) qm2(4) qm3(4) d d2 by (auto simp: utf8_encode_char_def)
  have q3: "q3 < 5" using assms(2) qm(1) qm2(1) qm3(1) by linarith
  have c2: "is_cont (128 + m2)" "is_cont (128 + m1)" "is_cont (128 + m0)"
    using qm(2) qm2(2) qm3(2) by (simp_all add: is_cont_def)
  have nb: "\<not> bad_second4 (240 + q3) (128 + m2)"
  proof -
    have "q3 = 0 \<Longrightarrow> 16 \<le> m2" using assms(1) qm(1,2) qm2(1,2) qm3(1) by linarith
    moreover have "q3 = 4 \<Longrightarrow> m2 < 16" using assms(2) qm(1,2) qm2(1,2) qm3(1) by linarith
    ultimately show ?thesis unfolding bad_second4_def by (cases "128 + m2 < 144") auto
  qed
  have r: "(240 + q3 - 240) * 262144 + (128 + m2 - 128) * 4096 + (128 + m1 - 128) * 64
             + (128 + m0 - 128) = c"
    using qm(1) qm2(1) qm3(1) by simp
  have rng: "\<not> 240 + q3 < 128" "\<not> 240 + q3 < 194" "\<not> 240 + q3 < 224" "\<not> 240 + q3 < 240"
    "240 + q3 < 245"
    using q3 by linarith+
  show ?thesis
    unfolding e using c2 nb r rng by (simp del: add_diff_cancel_left' add_diff_cancel_right' diff_add_inverse diff_add_inverse2)
qed

lemma decode_encode_char:
  assumes "is_scalar c"
  shows "utf8_decode (utf8_encode_char c @ bs) = c # utf8_decode bs"
proof -
  from assms have s: "c < 1114112" "c < 55296 \<or> 57344 \<le> c" by (simp_all add: is_scalar_def)
  consider "c < 128" | "128 \<le> c" "c < 2048" | "2048 \<le> c" "c < 65536" | "65536 \<le> c"
    by linarith
  then show ?thesis
  proof cases
    case 1 then show ?thesis by (rule decode_encode_char1)
  next
    case 2 then show ?thesis by (rule decode_encode_char2)
  next
    case 3 then show ?thesis using s(2) by (rule decode_encode_char3)
  next
    case 4 then show ?thesis using s(1) by (rule decode_encode_char4)
  qed
qed

lemma encode_char_bytes:
  assumes "is_scalar c"
  shows "list_all (\<lambda>b. b < 256) (utf8_encode_char c)"
proof -
  from assms have s: "c < 1114112" by (simp add: is_scalar_def)
  have a: "c < 2048 \<Longrightarrow> 192 + c div 64 < 256" by simp
  have b: "c < 65536 \<Longrightarrow> 224 + c div 4096 < 256" by simp
  have c: "240 + c div 262144 < 256" using s by simp
  have m: "\<And>x::nat. 128 + x mod 64 < 256" using mod64_less128 by simp
  show ?thesis
    unfolding utf8_encode_char_def using a b c m by simp
qed

lemma unat_of_nat_byte: "b < 256 \<Longrightarrow> unat (of_nat b :: byte) = b"
  by (simp add: unsigned_of_nat take_bit_nat_eq_self)

lemma map_unat_of_nat: "list_all (\<lambda>b. b < 256) bs \<Longrightarrow> map unat (map of_nat bs :: byte list) = bs"
  by (induction bs) (simp_all add: unat_of_nat_byte)

lemma encode_bytes: "list_all is_scalar t \<Longrightarrow> list_all (\<lambda>b. b < 256) (concat (map utf8_encode_char t))"
  by (induction t) (simp_all add: encode_char_bytes)

lemma utf8_decode_encode:
  "list_all is_scalar t \<Longrightarrow> utf8_decode (concat (map utf8_encode_char t)) = t"
  by (induction t) (simp_all add: decode_encode_char)

lemma decode_encode:
  assumes "list_all is_scalar t"
  shows "decode (encode t) = t"
proof -
  have "map unat (map of_nat (concat (map utf8_encode_char t)) :: byte list)
          = concat (map utf8_encode_char t)"
    using assms by (intro map_unat_of_nat encode_bytes)
  then show ?thesis
    unfolding decode_def encode_def using assms by (simp only: utf8_decode_encode)
qed

lemma translate_scalar:
  assumes "list_all is_scalar t" and "linesep = [NL] \<or> linesep = [CR, NL]"
  shows "list_all is_scalar (translate_newlines linesep t)"
proof -
  have "list_all is_scalar linesep"
    using assms(2) by (auto simp: is_scalar_def NL_def CR_def)
  with assms(1) show ?thesis
    by (induction t) (simp_all add: translate_newlines_def)
qed

lemma translate_newlines_nl: "translate_newlines [NL] t = t"
  by (induction t) (simp_all add: translate_newlines_def)

lemma read_write_text:
  assumes "list_all is_scalar t" and "CR \<notin> set t" and "linesep = [NL] \<or> linesep = [CR, NL]"
  shows "read_text (write_text linesep t) = t"
  using assms
  by (simp add: read_text_def write_text_def decode_encode translate_scalar universal_translate)

lemma load_lines:
  "fs (path d0) = Some bytes \<Longrightarrow> \<exists>d. load fs d0 = Inr d \<and> lines d = splitlines_keepends (read_text bytes)
      \<and> path d = path d0"
  by (simp add: load_def Let_def split: prod.splits)

section \<open>Documents\<close>

lemma scan_refs_distinct: "distinct (map fst (scan_refs ls))"
proof (induction ls rule: rev_induct)
  case Nil
  show ?case by (simp add: scan_refs_def scan_init_def)
next
  case (snoc x ls)
  then show ?case
    by (auto simp: scan_refs_snoc distinct_update split: option.splits)
qed

lemma list_all_update:
  "list_all P al \<Longrightarrow> P (k, v) \<Longrightarrow> list_all P (AList.update k v al)"
  by (induction al) auto

lemma load_well_indexed: "load fs d = Inr d' \<Longrightarrow> well_indexed d'"
proof -
  assume l: "load fs d = Inr d'"
  have "line_index r < length (lines d')" if "(t, r) \<in> set (refs d')" for t r
  proof -
    have "distinct (map fst (refs d'))"
      using l by (simp add: load_refs scan_refs_distinct)
    with that have "map_of (refs d') t = Some r" by simp
    then show ?thesis using load_index_bound [OF l] by blast
  qed
  then show ?thesis
    using load_loaded [OF l] by (auto simp: well_indexed_def list_all_iff)
qed

lemma well_indexed_bound:
  "well_indexed d \<Longrightarrow> map_of (refs d) t = Some r \<Longrightarrow> line_index r < length (lines d)"
  by (auto simp: well_indexed_def list_all_iff dest!: map_of_SomeD)

lemma docDup_load: "load fsDup (IniDocument_init ''d.ini'') = Inr docDup"
  by (simp add: fsDup_def docDup_def doc_defs rx_defs str_defs io_defs)

lemma docA_load: "load fsA (IniDocument_init ''a.ini'') = Inr docA"
  by (simp add: fsA_def docA_def doc_defs rx_defs str_defs io_defs)

lemma docA_well_indexed: "well_indexed docA"
  by (simp add: well_indexed_def docA_def)

lemma docDup_entries:
  "entry_at (lines docDup) 1 =
     Some ((u ''A'', u ''k''),
           \<lparr>ref_section = u ''A'', ref_key = u ''k'', ref_value = u ''1'',
            line_index = 1, ref_prefix = [], ref_suffix = u ''\<newline>''\<rparr>)"
  "entry_at (lines docDup) 2 = Some ((u ''A'', u ''k''), snd (hd (refs docDup)))"
  by (simp_all add: entry_at_def section_at_def keyval_of_def scan_init_def numeral_2_eq_2
        docDup_def doc_defs rx_defs str_defs)


lemma find_section_line_index_from_bound:
  "find_section_line_index_from i ls w = Some m \<Longrightarrow> i \<le> m \<and> m < i + length ls"
  by (induction ls arbitrary: i) (fastforce split: option.splits if_splits)+

lemma find_section_end_index_le: "find_section_end_index d i \<le> length (lines d)"
proof (cases "find (\<lambda>i. re_match SECTION_RE (lines d ! i) \<noteq> None) [i ..< length (lines d)]")
  case None
  then show ?thesis by (simp add: find_section_end_index_def)
next
  case (Some m)
  then have "m \<in> set [i ..< length (lines d)]"
    by (auto simp: find_Some_iff)
  then show ?thesis using Some by (simp add: find_section_end_index_def)
qed

lemma insert_pos_le: "insert_pos d s \<le> length (lines d)"
  by (simp add: insert_pos_def find_section_end_index_le split: option.splits)

lemma load_path_only:
  "path d1 = path d2 \<Longrightarrow> IniDocument.more d1 = IniDocument.more d2 \<Longrightarrow> load fs d1 = load fs d2"
  by (cases d1; cases d2) (simp add: load_def Let_def split: option.splits prod.splits)

lemma load_again: "load fs d0 = Inr d \<Longrightarrow> load fs d = Inr d"
  by (cases d0) (auto simp: load_def Let_def split: option.splits prod.splits)

lemma set_value_new:
  assumes "well_indexed d"
    and "map_of (refs d) (norm_section s, norm_key k) = None"
    and "load fs d = Inr dl"
  shows "set_value fs d s k v =
           Inr (if norm_section s \<noteq> [] \<and> norm_section s \<notin> set (section_order dl)
                then dl\<lparr>section_order := section_order dl @ [norm_section s]\<rparr> else dl)"
proof -
  let ?i = "insert_pos d (norm_section s)"
  let ?r = "\<lparr>ref_section = norm_section s, ref_key = norm_key k, ref_value = v,
             line_index = ?i, ref_prefix = [], ref_suffix = []\<rparr>"
  let ?d1 = "d\<lparr>lines := take ?i (lines d) @ [norm_key k @ u ''='' @ v @ [NL]] @ drop ?i (lines d),
              refs := AList.update (norm_section s, norm_key k) ?r (refs d)\<rparr>"
  have l: "loaded d" using assms(1) by (simp add: well_indexed_def)
  have i: "?i \<le> length (lines d)" by (rule insert_pos_le)
  have "list_all (\<lambda>(t, r). line_index r < length (lines d)) (refs d)"
    using assms(1) by (simp add: well_indexed_def)
  then have "list_all (\<lambda>(t, r). line_index r < length (lines ?d1)) (refs d)"
    by (auto simp: list_all_iff)
  then have "list_all (\<lambda>(t, r). line_index r < length (lines ?d1)) (refs ?d1)"
    using i by (simp add: list_all_update)
  then have ok: "\<not> list_ex (\<lambda>(t, r). line_index r \<ge> ?i \<and>
                   (line_index r \<ge> length (lines ?d1) \<or> ?i \<ge> length (lines ?d1))) (refs ?d1)"
    using i by (auto simp: list_all_iff list_ex_iff)
  have ld: "load fs (?d1\<lparr>loaded := False\<rparr>) = Inr dl"
    using assms(3) load_path_only [of "?d1\<lparr>loaded := False\<rparr>" d fs] by simp
  have re: "reindex_refs_from fs ?d1 ?i = Inr dl"
    unfolding reindex_refs_from_def using ok ld by presburger
  show ?thesis
    using l assms(2) re
    by (simp add: set_value_def ensure_loaded_def Let_def insert_pos_def)
qed

lemma entry_at_suffix_no_nl:
  assumes "entry_at ls j = Some (t, r)" and "\<not> endswith_nl (ls ! j)"
  shows "\<not> endswith_nl (ref_suffix r)"
proof -
  from assms(1) obtain km where km: "keyval_of (ls ! j) = Some km"
    "ref_suffix r = group_of km ''suffix''"
    by (auto simp: entry_at_def split: option.splits)
  from km(1) have "re_match KEYVAL_RE (ls ! j) = Some km"
    by (simp add: keyval_of_def split: if_splits)
  from keyval_suffix_no_nl [OF this assms(2)] km(2) show ?thesis by simp
qed

lemma endswith_nl_append:
  "endswith_nl (a @ b) \<longleftrightarrow> (if b = [] then endswith_nl a else endswith_nl b)"
  by (simp add: endswith_nl_def)

lemma rewritten_line_no_nl:
  "\<not> endswith_nl v \<Longrightarrow> \<not> endswith_nl sfx \<Longrightarrow> \<not> endswith_nl (p @ k @ u ''='' @ v @ sfx)"
  by (simp add: endswith_nl_append) (simp add: endswith_nl_def u_def NL_def)


lemma comment_line_other:
  "re_match SECTION_RE (u '';'' @ rest) = None \<and> re_match KEYVAL_RE (u '';'' @ rest) = None"
  by (simp add: rx_defs str_defs)

lemma other_line_no_entry:
  assumes "load fs d0 = Inr d" and "map_of (refs d) t = Some r"
  shows "re_match SECTION_RE (lines d ! line_index r) = None \<and>
         re_match KEYVAL_RE (lines d ! line_index r) \<noteq> None"
proof -
  from assms obtain j where j: "entry_at (lines d) j = Some (t, r)"
    using scan_refs_origin [of "lines d" t r] by (auto simp: load_refs [OF assms(1)])
  have "line_index r = j" using j by (rule entry_at_index)
  with j show ?thesis
    by (auto simp: entry_at_def keyval_of_def split: option.splits if_splits)
qed

lemma set_value_total:
  assumes "load fs d0 = Inr d"
  shows "\<exists>d'. set_value fs d s k v = Inr d'"
proof (cases "map_of (refs d) (norm_section s, norm_key k)")
  case None
  show ?thesis
    using set_value_new [OF load_well_indexed [OF assms] None load_again [OF assms]] by blast
next
  case (Some r)
  have w: "well_indexed d" using assms by (rule load_well_indexed)
  show ?thesis
    using set_value_existing [OF load_loaded [OF assms] Some well_indexed_bound [OF w Some]]
    by blast
qed

section \<open>The editor form\<close>

lemma rstrip_idem: "rstrip (rstrip s) = rstrip s"
  by (simp add: rstrip_def dropWhile_idem)

lemma lstrip_rstrip_lstrip: "lstrip (rstrip (lstrip s)) = rstrip (lstrip s)"
proof (cases "lstrip s")
  case Nil
  have e: "rstrip [] = []" "lstrip [] = []" by (simp_all add: rstrip_def lstrip_def)
  from Nil show ?thesis by (simp add: e)
next
  case (Cons c cs)
  then have c: "\<not> isspace c"
    unfolding lstrip_def by (metis hd_dropWhile list.distinct(1) list.sel(1))
  have "\<exists>ys. rstrip (c # cs) = c # ys"
  proof -
    have "dropWhile isspace (rev (c # cs)) = dropWhile isspace (rev cs) @ [c]"
      using c by (simp add: dropWhile_append)
    then show ?thesis by (simp add: rstrip_def)
  qed
  then obtain ys where "rstrip (c # cs) = c # ys" by blast
  with c Cons show ?thesis by (simp add: lstrip_def)
qed

lemma strip_idem: "strip (strip s) = strip s"
  by (simp add: strip_def lstrip_rstrip_lstrip rstrip_idem)

lemma entry_at_key:
  "entry_at ls j = Some ((s, k), r) \<Longrightarrow>
     norm_section s = s \<and> norm_key k = k \<and> ref_section r = s \<and> ref_key r = k"
  by (auto simp: entry_at_def norm_section_def norm_key_def strip_idem split: option.splits)

lemma load_ref_key:
  assumes "load fs d0 = Inr d" and "map_of (refs d) (s, k) = Some r"
  shows "norm_section s = s \<and> norm_key k = k \<and> ref_section r = s \<and> ref_key r = k"
proof -
  from assms obtain j where "entry_at (lines d) j = Some ((s, k), r)"
    using scan_refs_origin [of "lines d" "(s, k)" r] by (auto simp: load_refs [OF assms(1)])
  then show ?thesis by (rule entry_at_key)
qed

lemma control_for_cases:
  assumes "control_for pf v = Inr w"
  shows "(\<forall>t. w = QLineEdit t \<longrightarrow> t = v) \<and>
         (\<forall>b. w = QCheckBox b \<longrightarrow> is_bool_text v = Some b) \<and>
         (\<forall>t. w = ColorEditor t \<longrightarrow> t = v \<and> is_bool_text v = None \<and> parse_hex_color v \<noteq> None) \<and>
         (\<forall>n. w = QSpinBox n \<longrightarrow> parse_int v = Some n) \<and>
         (\<forall>x. w = QDoubleSpinBox x \<longrightarrow> pf (strip v) = Some x)"
  using assms
  by (auto simp: control_for_def float_control_def split: option.splits if_splits)

lemma control_for_line_edit: "control_for pf v = Inr (QLineEdit t) \<Longrightarrow> t = v"
  by (auto simp: control_for_def float_control_def split: option.splits if_splits)

lemma add_control_distinct:
  "add_control pf cs s k v = Inr cs' \<Longrightarrow> distinct (map fst cs) \<Longrightarrow> distinct (map fst cs')"
  by (auto simp: add_control_def Let_def distinct_update split: sum.splits if_splits)

lemma add_control_map_of:
  assumes "add_control pf cs s k v = Inr cs'"
  shows "\<exists>w. control_for pf v = Inr w \<and> map_of cs' (s, k) = Some w \<and>
           (\<forall>s' k'. k' \<noteq> [] \<and> (s', k') \<noteq> (s, k) \<longrightarrow> map_of cs' (s', k') = map_of cs (s', k'))"
  using assms
  by (auto simp: add_control_def Let_def update_conv' split: sum.splits if_splits)

lemma add_controls_distinct:
  "add_controls pf cs rs = Inr cs' \<Longrightarrow> distinct (map fst cs) \<Longrightarrow> distinct (map fst cs')"
proof (induction rs arbitrary: cs)
  case Nil
  then show ?case by simp
next
  case (Cons r rs)
  from Cons.prems(1) obtain cs1 where
    c1: "add_control pf cs (ref_section r) (ref_key r) (ref_value r) = Inr cs1"
    and c2: "add_controls pf cs1 rs = Inr cs'"
    by (auto split: sum.splits)
  show ?case using Cons.IH [OF c2 add_control_distinct [OF c1 Cons.prems(2)]] .
qed

text \<open>
  The control stored for a pair with a non-empty key comes from the value of an
  Entry with that section and key (or was there before).
\<close>

lemma add_controls_sound:
  "add_controls pf cs rs = Inr cs' \<Longrightarrow> map_of cs' (s, k) = Some w \<Longrightarrow> k \<noteq> [] \<Longrightarrow>
     map_of cs (s, k) = Some w \<or>
     (\<exists>r \<in> set rs. ref_section r = s \<and> ref_key r = k \<and> control_for pf (ref_value r) = Inr w)"
proof (induction rs arbitrary: cs)
  case Nil
  then show ?case by simp
next
  case (Cons r rs)
  from Cons.prems(1) obtain cs1 where
    c1: "add_control pf cs (ref_section r) (ref_key r) (ref_value r) = Inr cs1"
    and c2: "add_controls pf cs1 rs = Inr cs'"
    by (auto split: sum.splits)
  from add_control_map_of [OF c1] obtain w1 where w1: "control_for pf (ref_value r) = Inr w1"
    "map_of cs1 (ref_section r, ref_key r) = Some w1"
    "\<forall>s' k'. k' \<noteq> [] \<and> (s', k') \<noteq> (ref_section r, ref_key r) \<longrightarrow>
       map_of cs1 (s', k') = map_of cs (s', k')" by blast
  from Cons.IH [OF c2 Cons.prems(2,3)] consider
    (old) "map_of cs1 (s, k) = Some w"
    | (new) "\<exists>r \<in> set rs. ref_section r = s \<and> ref_key r = k \<and> control_for pf (ref_value r) = Inr w"
    by blast
  then show ?case
  proof cases
    case old
    show ?thesis
    proof (cases "(s, k) = (ref_section r, ref_key r)")
      case True
      with old w1 show ?thesis by auto
    next
      case False
      with old w1(3) Cons.prems(3) show ?thesis by auto
    qed
  next
    case new
    then show ?thesis by auto
  qed
qed

lemma add_controls_complete:
  "add_controls pf cs rs = Inr cs' \<Longrightarrow> k \<noteq> [] \<Longrightarrow>
     map_of cs (s, k) \<noteq> None \<or> (\<exists>r \<in> set rs. ref_section r = s \<and> ref_key r = k) \<Longrightarrow>
     map_of cs' (s, k) \<noteq> None"
proof (induction rs arbitrary: cs)
  case Nil
  then show ?case by simp
next
  case (Cons r rs)
  from Cons.prems(1) obtain cs1 where
    c1: "add_control pf cs (ref_section r) (ref_key r) (ref_value r) = Inr cs1"
    and c2: "add_controls pf cs1 rs = Inr cs'"
    by (auto split: sum.splits)
  from add_control_map_of [OF c1] obtain w1 where w1:
    "map_of cs1 (ref_section r, ref_key r) = Some w1"
    "\<forall>s' k'. k' \<noteq> [] \<and> (s', k') \<noteq> (ref_section r, ref_key r) \<longrightarrow>
       map_of cs1 (s', k') = map_of cs (s', k')" by blast
  have "map_of cs1 (s, k) \<noteq> None \<or> (\<exists>r \<in> set rs. ref_section r = s \<and> ref_key r = k)"
  proof (cases "(s, k) = (ref_section r, ref_key r)")
    case True
    with w1(1) show ?thesis by auto
  next
    case False
    with w1(2) Cons.prems(2,3) show ?thesis by auto
  qed
  with Cons.IH [OF c2 Cons.prems(2)] show ?case by blast
qed

lemma set_value_existing_refs:
  assumes "well_indexed d" and "map_of (refs d) (s, k) = Some r"
    and "norm_section s = s" and "norm_key k = k"
  shows "\<exists>d'. set_value fs d s k v = Inr d' \<and> well_indexed d' \<and>
           map_of (refs d') = (map_of (refs d))((s, k) \<mapsto> r\<lparr>ref_value := v\<rparr>)"
proof -
  have l: "loaded d" using assms(1) by (simp add: well_indexed_def)
  have m: "map_of (refs d) (norm_section s, norm_key k) = Some r"
    using assms(2,3,4) by simp
  have b: "line_index r < length (lines d)" using well_indexed_bound [OF assms(1,2)] .
  have all: "list_all (\<lambda>(t, r). line_index r < length (lines d)) (refs d)"
    using assms(1) by (simp add: well_indexed_def)
  have "list_all (\<lambda>(t, r). line_index r < length (lines d))
          (AList.update (s, k) (r\<lparr>ref_value := v\<rparr>) (refs d))"
    using all b by (intro list_all_update) simp_all
  then show ?thesis
    unfolding set_value_existing [OF l m b] using l assms(3,4)
    by (simp add: well_indexed_def update_conv')
qed

lemma apply_controls_refs:
  assumes "well_indexed d" and "distinct (map fst cs)"
    and "\<forall>s k w. ((s, k), w) \<in> set cs \<and> k \<noteq> [] \<and> new_val fmt w \<noteq> None \<longrightarrow>
           norm_section s = s \<and> norm_key k = k \<and> map_of (refs d) (s, k) \<noteq> None"
  shows "\<exists>d'. apply_controls_to_doc fs fmt d cs = Inr d' \<and> well_indexed d' \<and>
           (\<forall>t. map_of (refs d') t = map_option (rewrite_ref (written fmt cs t)) (map_of (refs d) t))"
  using assms
proof (induction cs arbitrary: d)
  case Nil
  show ?case using Nil.prems(1)
    by (simp add: written_def rewrite_ref_def option.map_ident split: option.splits)
next
  case (Cons x cs)
  obtain s k w where x: "x = ((s, k), w)" by (cases x) auto
  have dist: "distinct (map fst cs)" and notin: "(s, k) \<notin> fst ` set cs"
    using Cons.prems(2) x by auto
  have no: "map_of cs (s, k) = None" using notin by (simp add: map_of_eq_None_iff)
  have tail: "\<forall>s k w. ((s, k), w) \<in> set cs \<and> k \<noteq> [] \<and> new_val fmt w \<noteq> None \<longrightarrow>
           norm_section s = s \<and> norm_key k = k \<and> map_of (refs d) (s, k) \<noteq> None"
    using Cons.prems(3) by (meson list.set_intros(2))
  show ?case
  proof (cases "k = [] \<or> new_val fmt w = None")
    case True
    from Cons.IH [OF Cons.prems(1) dist tail] obtain d' where d':
      "apply_controls_to_doc fs fmt d cs = Inr d'" "well_indexed d'"
      "\<forall>t. map_of (refs d') t = map_option (rewrite_ref (written fmt cs t)) (map_of (refs d) t)"
      by blast
    have a: "apply_controls_to_doc fs fmt d (x # cs) = Inr d'"
      using True d'(1) x by auto
    have w: "written fmt (x # cs) t = written fmt cs t" for t
      using True no x by (auto simp: written_def)
    show ?thesis using a d'(2,3) w by auto
  next
    case False
    then obtain v where v: "new_val fmt w = Some v" and k: "k \<noteq> []" by auto
    have "norm_section s = s \<and> norm_key k = k \<and> map_of (refs d) (s, k) \<noteq> None"
      using Cons.prems(3) [rule_format, of s k w] x k v by simp
    then obtain r where r: "map_of (refs d) (s, k) = Some r"
      and n: "norm_section s = s" "norm_key k = k" by auto
    from set_value_existing_refs [OF Cons.prems(1) r n] obtain d1 where d1:
      "set_value fs d s k v = Inr d1" "well_indexed d1"
      "map_of (refs d1) = (map_of (refs d))((s, k) \<mapsto> r\<lparr>ref_value := v\<rparr>)"
      by blast
    have tail1: "\<forall>s k w. ((s, k), w) \<in> set cs \<and> k \<noteq> [] \<and> new_val fmt w \<noteq> None \<longrightarrow>
           norm_section s = s \<and> norm_key k = k \<and> map_of (refs d1) (s, k) \<noteq> None"
      using tail d1(3) by (metis fun_upd_apply option.distinct(1))
    from Cons.IH [OF d1(2) dist tail1] obtain d' where d':
      "apply_controls_to_doc fs fmt d1 cs = Inr d'" "well_indexed d'"
      "\<forall>t. map_of (refs d') t = map_option (rewrite_ref (written fmt cs t)) (map_of (refs d1) t)"
      by blast
    have a: "apply_controls_to_doc fs fmt d (x # cs) = Inr d'"
      using k v d1(1) d'(1) x by simp
    have "map_of (refs d') t = map_option (rewrite_ref (written fmt (x # cs) t)) (map_of (refs d) t)"
      for t
    proof (cases "t = (s, k)")
      case True
      have "written fmt cs t = None" using True no by (simp add: written_def)
      moreover have "written fmt (x # cs) t = Some v" using True x k v by (simp add: written_def)
      moreover have "map_of (refs d1) t = Some (r\<lparr>ref_value := v\<rparr>)" using d1(3) True by simp
      ultimately show ?thesis using d'(3) [rule_format, of t] r True by (simp add: rewrite_ref_def)
    next
      case False
      then have "written fmt (x # cs) t = written fmt cs t" using x by (simp add: written_def)
      moreover have "map_of (refs d1) t = map_of (refs d) t" using d1(3) False by simp
      ultimately show ?thesis using d'(3) [rule_format, of t] by simp
    qed
    then show ?thesis using a d'(2) by blast
  qed
qed

lemma control_for_not_label: "control_for pf v = Inr w \<Longrightarrow> new_val fmt w \<noteq> None"
  by (auto simp: control_for_def float_control_def new_val_def split: option.splits if_splits)

lemma all_items_set: "set (all_items lw d) = snd ` set (refs d)"
  by (simp add: all_items_def)

lemma load_refs_distinct: "load fs d0 = Inr d \<Longrightarrow> distinct (map fst (refs d))"
  by (simp add: load_refs scan_refs_distinct)

lemma load_item_key:
  assumes "load fs d0 = Inr d" and "r \<in> set (all_items lw d)"
  shows "map_of (refs d) (ref_section r, ref_key r) = Some r \<and>
         norm_section (ref_section r) = ref_section r \<and> norm_key (ref_key r) = ref_key r"
proof -
  from assms(2) obtain t where t: "(t, r) \<in> set (refs d)" by (auto simp: all_items_set)
  then have m: "map_of (refs d) t = Some r"
    using load_refs_distinct [OF assms(1)] by simp
  obtain s k where sk: "t = (s, k)" by (cases t)
  from load_ref_key [OF assms(1) m [unfolded sk]] m sk show ?thesis by simp
qed

lemma docT_hello_load:
  "load (fsT (u ''hello'')) (IniDocument_init ''t.ini'')
     = Inr (docT (u ''a=hello\<newline>'') (u ''hello''))"
  by (simp add: fsT_def docT_def doc_defs rx_defs str_defs io_defs)

section \<open>The claims\<close>

text \<open>
  Claim C2.  On the document \<open>[A]\nfoo=1\n\<close>, \<open>set("A", "baz", "x")\<close> is said to
  give \<open>[A]\nfoo=1\nbaz=x\n\<close> with the new binding in memory.  The code inserts the
  line and then loads the file again from disk, so the line and the binding are gone:
  the document is the one that was loaded, and \<open>get\<close> finds nothing.
\<close>

theorem set_new_key_discarded:
  "load fsA (IniDocument_init ''a.ini'') = Inr docA \<and>
   set_value fsA docA (u ''A'') (u ''baz'') (u ''x'') = Inr docA \<and>
   concat (lines docA) = u ''[A]\<newline>foo=1\<newline>'' \<and>
   get fsA docA (u ''A'') (u ''baz'') = Inr (None, docA)"
  by (simp add: fsA_def docA_def doc_defs rx_defs str_defs io_defs)

text \<open>
  Claim C10.  In a loaded document, for a (section, key) pair that has an Entry,
  \<open>set(section, key, v)\<close> succeeds and \<open>get(section, key)\<close> then returns exactly
  \<open>v\<close>.
\<close>

theorem get_after_set_existing:
  assumes "well_indexed d"
    and "map_of (refs d) (norm_section s, norm_key k) \<noteq> None"
  shows "\<exists>d'. set_value fs d s k v = Inr d' \<and> get fs d' s k = Inr (Some v, d')
           \<and> well_indexed d'"
proof -
  from assms(2) obtain r where r: "map_of (refs d) (norm_section s, norm_key k) = Some r"
    by blast
  have b: "line_index r < length (lines d)"
    using well_indexed_bound [OF assms(1) r] .
  have l: "loaded d" using assms(1) by (simp add: well_indexed_def)
  let ?d' = "d\<lparr>refs := AList.update (norm_section s, norm_key k) (r\<lparr>ref_value := v\<rparr>) (refs d),
            lines := (lines d)[line_index r :=
              ref_prefix r @ ref_key r @ u ''='' @ v @ ref_suffix r
                @ (if endswith_nl (lines d ! line_index r) then [NL] else [])]\<rparr>"
  have s: "set_value fs d s k v = Inr ?d'"
    using set_value_existing [OF l r b] .
  have g: "get fs ?d' s k = Inr (Some v, ?d')"
    using l by (simp add: get_def ensure_loaded_def update_conv')
  have "list_all (\<lambda>(t, r). line_index r < length (lines d)) (refs d)"
    using assms(1) by (simp add: well_indexed_def)
  then have "list_all (\<lambda>(t, r). line_index r < length (lines d))
               (AList.update (norm_section s, norm_key k) (r\<lparr>ref_value := v\<rparr>) (refs d))"
    using b by (intro list_all_update) simp_all
  then have w: "well_indexed ?d'"
    using l by (simp add: well_indexed_def)
  show ?thesis using s g w by blast
qed

theorem get_after_set_existing_witness:
  "well_indexed docA \<and> map_of (refs docA) (norm_section (u ''A''), norm_key (u ''foo'')) \<noteq> None \<and>
   (\<exists>d'. set_value fsA docA (u ''A'') (u ''foo'') (u ''9'') = Inr d' \<and>
          get fsA d' (u ''A'') (u ''foo'') = Inr (Some (u ''9''), d') \<and> well_indexed d')"
proof -
  have a: "well_indexed docA" by (rule docA_well_indexed)
  have b: "map_of (refs docA) (norm_section (u ''A''), norm_key (u ''foo'')) \<noteq> None"
    by (simp add: docA_def str_defs)
  show ?thesis using a b get_after_set_existing [OF a b] by blast
qed

text \<open>
  Claim C3.  \<open>set\<close> on an existing key is said to replace only the value portion
  of the line.  On the document \<open>[A]\nfoo=1\n[B]\nbar=2\n\<close>, \<open>set("A", "foo", "9")\<close>
  does not give \<open>[A]\nfoo=9\n[B]\nbar=2\n\<close>: the recorded suffix of the line already
  holds its \<open>\n\<close>, \<open>set\<close> appends another, and the rewritten line is \<open>foo=9\n\n\<close>.
\<close>

theorem set_existing_rewrites_more_than_value:
  "load fsAB (IniDocument_init ''ab.ini'') = Inr docAB \<and>
   concat (lines docAB) = u ''[A]\<newline>foo=1\<newline>[B]\<newline>bar=2\<newline>'' \<and>
   set_value fsAB docAB (u ''A'') (u ''foo'') (u ''9'') = Inr docAB9 \<and>
   concat (lines docAB9) = u ''[A]\<newline>foo=9\<newline>\<newline>[B]\<newline>bar=2\<newline>'' \<and>
   concat (lines docAB9) \<noteq> u ''[A]\<newline>foo=9\<newline>[B]\<newline>bar=2\<newline>''"
  by (simp add: fsAB_def docAB_def docAB9_def doc_defs rx_defs str_defs io_defs)

text \<open>
  Claim C4.  When two lines \<open>i < j\<close> of a loaded document define the same key in
  the same section and no later line does, \<open>get\<close> returns the value of line \<open>j\<close>.
  \<open>set(section, key, v)\<close> replaces line \<open>j\<close>, and no other line, by the Entry's
  prefix, its key, \<open>=\<close>, \<open>v\<close>, the Entry's suffix and a \<open>\n\<close> if the old line ended
  with one; line \<open>i\<close> stays as it was, the Entry of the pair now holds \<open>v\<close>, and
  \<open>get\<close> returns \<open>v\<close>.  Before and after, \<open>refs\<close> holds at most one Entry per
  (section, key).
\<close>

theorem last_duplicate_wins:
  assumes "load fs d0 = Inr d"
    and "i < j" and "j < length (lines d)"
    and "entry_at (lines d) i = Some ((norm_section s, norm_key k), ri)"
    and "entry_at (lines d) j = Some ((norm_section s, norm_key k), rj)"
    and "\<And>m r'. j < m \<Longrightarrow> m < length (lines d) \<Longrightarrow>
           entry_at (lines d) m \<noteq> Some ((norm_section s, norm_key k), r')"
  shows "get fs d s k = Inr (Some (ref_value rj), d) \<and>
         (\<exists>d'. set_value fs d s k v = Inr d' \<and>
            lines d' = (lines d)[j := ref_prefix rj @ ref_key rj @ u ''='' @ v @ ref_suffix rj
                                     @ (if endswith_nl (lines d ! j) then [NL] else [])] \<and>
            lines d' ! i = lines d ! i \<and>
            (\<forall>m. m \<noteq> j \<longrightarrow> lines d' ! m = lines d ! m) \<and>
            map_of (refs d') (norm_section s, norm_key k) = Some (rj\<lparr>ref_value := v\<rparr>) \<and>
            get fs d' s k = Inr (Some v, d') \<and>
            distinct (map fst (refs d'))) \<and>
         distinct (map fst (refs d))"
proof -
  let ?t = "(norm_section s, norm_key k)"
  have r: "map_of (refs d) ?t = Some rj"
    using scan_refs_last [OF assms(3) assms(5) assms(6)] by (simp add: load_refs [OF assms(1)])
  have l: "loaded d" using assms(1) by (rule load_loaded)
  have idx: "line_index rj = j" using assms(5) by (rule entry_at_index)
  have b: "line_index rj < length (lines d)" using idx assms(3) by simp
  have dist: "distinct (map fst (refs d))"
    by (simp add: load_refs [OF assms(1)] scan_refs_distinct)
  have g: "get fs d s k = Inr (Some (ref_value rj), d)"
    using l r by (simp add: get_def ensure_loaded_def)
  let ?new = "ref_prefix rj @ ref_key rj @ u ''='' @ v @ ref_suffix rj
                @ (if endswith_nl (lines d ! j) then [NL] else [])"
  let ?d' = "d\<lparr>refs := AList.update ?t (rj\<lparr>ref_value := v\<rparr>) (refs d),
               lines := (lines d)[j := ?new]\<rparr>"
  have s: "set_value fs d s k v = Inr ?d'"
    using set_value_existing [OF l r b] by (simp add: idx)
  have l1: "lines ?d' = (lines d)[j := ?new]" by simp
  have l2: "lines ?d' ! i = lines d ! i" using assms(2) by simp
  have l3: "\<forall>m. m \<noteq> j \<longrightarrow> lines ?d' ! m = lines d ! m" by simp
  have m: "map_of (refs ?d') ?t = Some (rj\<lparr>ref_value := v\<rparr>)"
    by (simp add: update_conv')
  have g': "get fs ?d' s k = Inr (Some v, ?d')"
    using l by (simp add: get_def ensure_loaded_def update_conv')
  have dist': "distinct (map fst (refs ?d'))"
    using dist by (simp add: distinct_update)
  have "\<exists>d'. set_value fs d s k v = Inr d' \<and>
            lines d' = (lines d)[j := ?new] \<and>
            lines d' ! i = lines d ! i \<and>
            (\<forall>m. m \<noteq> j \<longrightarrow> lines d' ! m = lines d ! m) \<and>
            map_of (refs d') ?t = Some (rj\<lparr>ref_value := v\<rparr>) \<and>
            get fs d' s k = Inr (Some v, d') \<and>
            distinct (map fst (refs d'))"
    using s l1 l2 l3 m g' dist' by blast
  with g dist show ?thesis by blast
qed

theorem last_duplicate_wins_witness:
  "load fsDup (IniDocument_init ''d.ini'') = Inr docDup \<and>
   concat (lines docDup) = u ''[A]\<newline>k=1\<newline>k = 2\<newline>'' \<and>
   get fsDup docDup (u ''A'') (u ''k'') = Inr (Some (u ''2''), docDup) \<and>
   (\<exists>d'. set_value fsDup docDup (u ''A'') (u ''k'') (u ''7'') = Inr d' \<and>
      lines d' = [u ''[A]\<newline>'', u ''k=1\<newline>'', u ''k=7\<newline>\<newline>''] \<and>
      get fsDup d' (u ''A'') (u ''k'') = Inr (Some (u ''7''), d')) \<and>
   distinct (map fst (refs docDup))"
proof -
  have n: "norm_section (u ''A'') = u ''A''" "norm_key (u ''k'') = u ''k''"
    by (simp_all add: str_defs)
  have e1: "entry_at (lines docDup) 1 =
     Some ((norm_section (u ''A''), norm_key (u ''k'')),
           \<lparr>ref_section = u ''A'', ref_key = u ''k'', ref_value = u ''1'',
            line_index = 1, ref_prefix = [], ref_suffix = u ''\<newline>''\<rparr>)"
    unfolding n by (rule docDup_entries)
  have e2: "entry_at (lines docDup) 2 =
     Some ((norm_section (u ''A''), norm_key (u ''k'')), snd (hd (refs docDup)))"
    unfolding n by (rule docDup_entries)
  have len: "2 < length (lines docDup)" by (simp add: docDup_def)
  have none: "\<And>m r'. 2 < m \<Longrightarrow> m < length (lines docDup) \<Longrightarrow>
      entry_at (lines docDup) m \<noteq> Some ((norm_section (u ''A''), norm_key (u ''k'')), r')"
    by (simp add: docDup_def)
  have v: "ref_value (snd (hd (refs docDup))) = u ''2''" by (simp add: docDup_def)
  have new: "(lines docDup)[2 := ref_prefix (snd (hd (refs docDup))) @ ref_key (snd (hd (refs docDup)))
               @ u ''='' @ u ''7'' @ ref_suffix (snd (hd (refs docDup)))
               @ (if endswith_nl (lines docDup ! 2) then [NL] else [])]
             = [u ''[A]\<newline>'', u ''k=1\<newline>'', u ''k=7\<newline>\<newline>'']"
    by (simp add: docDup_def str_defs)
  have c: "concat (lines docDup) = u ''[A]\<newline>k=1\<newline>k = 2\<newline>''"
    by (simp add: docDup_def u_def)
  from last_duplicate_wins [OF docDup_load _ len e1 e2 none, of "u ''7''"]
  have g: "get fsDup docDup (u ''A'') (u ''k'') = Inr (Some (u ''2''), docDup)"
    and "\<exists>d'. set_value fsDup docDup (u ''A'') (u ''k'') (u ''7'') = Inr d' \<and>
      lines d' = [u ''[A]\<newline>'', u ''k=1\<newline>'', u ''k=7\<newline>\<newline>''] \<and>
      get fsDup d' (u ''A'') (u ''k'') = Inr (Some (u ''7''), d')"
    and d: "distinct (map fst (refs docDup))"
    unfolding v new by auto
  with docDup_load c show ?thesis by blast
qed

text \<open>
  Claim C5, as stated (for every value): on the file \<open>a=1\<close>, whose only line has no
  terminator, \<open>set("", "a", "x\n")\<close> gives the line \<open>a=x\n\<close>, and the same call
  again gives \<open>a=x\n\n\<close>.
\<close>

theorem set_twice_differs:
  "load fsN (IniDocument_init ''n.ini'') = Inr (docN (u ''a=1'') (u ''1'')) \<and>
   set_value fsN (docN (u ''a=1'') (u ''1'')) [] (u ''a'') (u ''x\<newline>'')
     = Inr (docN (u ''a=x\<newline>'') (u ''x\<newline>'')) \<and>
   set_value fsN (docN (u ''a=x\<newline>'') (u ''x\<newline>'')) [] (u ''a'') (u ''x\<newline>'')
     = Inr (docN (u ''a=x\<newline>\<newline>'') (u ''x\<newline>'')) \<and>
   docN (u ''a=x\<newline>\<newline>'') (u ''x\<newline>'') \<noteq> docN (u ''a=x\<newline>'') (u ''x\<newline>'')"
  by (simp add: fsN_def docN_def doc_defs rx_defs str_defs io_defs)

text \<open>
  Claim C5, amended.  For a loaded document and a value that does not end with a
  newline, \<open>set(section, key, v)\<close> succeeds, and the same call on its result gives
  that result again (lines, Entries and section order), whether or not the pair had
  an Entry.
\<close>

theorem set_twice_same:
  assumes "load fs d0 = Inr d" and "\<not> endswith_nl v"
  shows "\<exists>d1. set_value fs d s k v = Inr d1 \<and> set_value fs d1 s k v = Inr d1"
proof (cases "map_of (refs d) (norm_section s, norm_key k)")
  case None
  have w: "well_indexed d" using assms(1) by (rule load_well_indexed)
  have la: "load fs d = Inr d" using assms(1) by (rule load_again)
  let ?d1 = "if norm_section s \<noteq> [] \<and> norm_section s \<notin> set (section_order d)
             then d\<lparr>section_order := section_order d @ [norm_section s]\<rparr> else d"
  have s1: "set_value fs d s k v = Inr ?d1"
    using set_value_new [OF w None la] .
  have w1: "well_indexed ?d1" using w by (simp add: well_indexed_def)
  have n1: "map_of (refs ?d1) (norm_section s, norm_key k) = None" using None by simp
  have l1: "load fs ?d1 = Inr d"
    using la load_path_only [of ?d1 d fs] by simp
  have s2: "set_value fs ?d1 s k v = Inr ?d1"
    using set_value_new [OF w1 n1 l1] by simp
  show ?thesis using s1 s2 by blast
next
  case (Some r)
  let ?t = "(norm_section s, norm_key k)"
  have w: "well_indexed d" using assms(1) by (rule load_well_indexed)
  have l: "loaded d" using w by (simp add: well_indexed_def)
  have b: "line_index r < length (lines d)" using well_indexed_bound [OF w Some] .
  let ?old = "lines d ! line_index r"
  let ?new = "ref_prefix r @ ref_key r @ u ''='' @ v @ ref_suffix r
                @ (if endswith_nl ?old then [NL] else [])"
  let ?r1 = "r\<lparr>ref_value := v\<rparr>"
  let ?d1 = "d\<lparr>refs := AList.update ?t ?r1 (refs d), lines := (lines d)[line_index r := ?new]\<rparr>"
  have s1: "set_value fs d s k v = Inr ?d1"
    using set_value_existing [OF l Some b] .
  from Some obtain j where j: "j < length (lines d)" "entry_at (lines d) j = Some (?t, r)"
    using scan_refs_origin [of "lines d" ?t r] by (auto simp: load_refs [OF assms(1)])
  have jr: "line_index r = j" using j(2) by (rule entry_at_index)
  have e: "endswith_nl ?new \<longleftrightarrow> endswith_nl ?old"
  proof (cases "endswith_nl ?old")
    case True
    then show ?thesis by (simp add: endswith_nl_def)
  next
    case False
    then have "\<not> endswith_nl (ref_suffix r)"
      using entry_at_suffix_no_nl [OF j(2)] jr by simp
    then show ?thesis
      using False rewritten_line_no_nl [OF assms(2)] by simp
  qed
  have l1: "loaded ?d1" using l by simp
  have m1: "map_of (refs ?d1) ?t = Some ?r1" by (simp add: update_conv')
  have b1: "line_index ?r1 < length (lines ?d1)" using b by simp
  have s2: "set_value fs ?d1 s k v = Inr ?d1"
    unfolding set_value_existing [OF l1 m1 b1] using b e by simp
  show ?thesis using s1 s2 by blast
qed

theorem set_twice_same_witness:
  "load fsA (IniDocument_init ''a.ini'') = Inr docA \<and> \<not> endswith_nl (u ''9'') \<and>
   (\<exists>d1. set_value fsA docA (u ''A'') (u ''foo'') (u ''9'') = Inr d1 \<and>
          set_value fsA d1 (u ''A'') (u ''foo'') (u ''9'') = Inr d1)"
proof -
  have v: "\<not> endswith_nl (u ''9'')" by (simp add: str_defs)
  show ?thesis using set_twice_same [OF docA_load v] docA_load v by blast
qed


text \<open>
  Claim C1, as stated (arbitrary bytes): the one-byte file \<open>FF\<close> is loaded as the
  line U+FFFD, and \<open>save\<close> writes the three bytes \<open>EF BF BD\<close>.
\<close>

theorem load_save_wrong_bytes:
  "load fsBad (IniDocument_init ''x.ini'') = Inr docBad \<and>
   save fsBad [NL] docBad = Inr (fsBad(''x.ini'' \<mapsto> [0xEF, 0xBF, 0xBD]), docBad) \<and>
   (fsBad(''x.ini'' \<mapsto> [0xEF, 0xBF, 0xBD])) ''x.ini'' \<noteq> fsBad ''x.ini''"
  by (simp add: fsBad_def docBad_def doc_defs rx_defs str_defs io_defs)

text \<open>
  Claim C1, amended.  A file that is valid UTF-8 (the encoding of a text of Unicode
  scalar values) and holds no carriage return is loaded as that text, cut into
  lines, and \<open>save\<close> on a platform whose line separator is \<open>\n\<close> leaves the file as
  it was, byte for byte.
\<close>

theorem load_save_roundtrip:
  assumes "fs (path d0) = Some (encode t)"
    and "list_all is_scalar t" and "CR \<notin> set t"
  shows "\<exists>d fs'. load fs d0 = Inr d \<and> concat (lines d) = t \<and>
           save fs [NL] d = Inr (fs', d) \<and> fs' (path d0) = Some (encode t) \<and> fs' = fs"
proof -
  have w: "write_text [NL] t = encode t"
    by (simp add: write_text_def translate_newlines_nl)
  have rt: "read_text (encode t) = t"
    using read_write_text [OF assms(2,3), of "[NL]"] w by simp
  from load_lines [of fs d0 "encode t", OF assms(1)] obtain d where d: "load fs d0 = Inr d"
    "lines d = splitlines_keepends (read_text (encode t))" "path d = path d0" by blast
  have l: "loaded d" using d(1) by (rule load_loaded)
  have c: "concat (lines d) = t" by (simp add: d(2) concat_splitlines rt)
  have "fs(path d \<mapsto> write_text [NL] (concat (lines d))) = fs"
    using assms(1) d(3) c w by (simp add: fun_upd_idem)
  then have s: "save fs [NL] d = Inr (fs, d)"
    using l by (simp add: save_def ensure_loaded_def)
  show ?thesis using d(1) c s assms(1) by blast
qed

theorem load_save_roundtrip_witness:
  "fsA (path (IniDocument_init ''a.ini'')) = Some (encode (u ''[A]\<newline>foo=1\<newline>'')) \<and>
   list_all is_scalar (u ''[A]\<newline>foo=1\<newline>'') \<and> CR \<notin> set (u ''[A]\<newline>foo=1\<newline>'') \<and>
   (\<exists>d. load fsA (IniDocument_init ''a.ini'') = Inr d \<and>
      concat (lines d) = u ''[A]\<newline>foo=1\<newline>'' \<and>
      save fsA [NL] d = Inr (fsA, d))"
proof -
  let ?t = "u ''[A]\<newline>foo=1\<newline>''"
  have b: "fsA (path (IniDocument_init ''a.ini'')) = Some (encode ?t)"
    by (simp add: fsA_def IniDocument_init_def)
  have t: "list_all is_scalar ?t" "CR \<notin> set ?t"
    by (simp_all add: is_scalar_def str_defs)
  from load_save_roundtrip [of fsA "IniDocument_init ''a.ini''" ?t, OF b t] b t show ?thesis by blast
qed

text \<open>
  Claim C6.  The file \<open>a=1\r\nb=2\n\<close> is loaded as the lines \<open>a=1\n\<close> and
  \<open>b=2\n\<close>: the CRLF of the first line is gone after \<open>load\<close>.  \<open>save\<close> writes
  \<open>a=1\nb=2\n\<close> where \<open>os.linesep\<close> is \<open>\n\<close> and \<open>a=1\r\nb=2\r\n\<close> where it is
  \<open>\r\n\<close>, one convention for every line, and \<open>set("", "a", "9")\<close> turns the first
  line into \<open>a=9\n\n\<close>.
\<close>

theorem crlf_not_preserved:
  "fsCRLF ''c.ini'' = Some (encode (u ''a=1'' @ [CR, NL] @ u ''b=2\<newline>'')) \<and>
   load fsCRLF (IniDocument_init ''c.ini'') = Inr (docCRLF (u ''a=1\<newline>'') (u ''1'')) \<and>
   save fsCRLF [NL] (docCRLF (u ''a=1\<newline>'') (u ''1''))
     = Inr (fsCRLF(''c.ini'' \<mapsto> encode (u ''a=1\<newline>b=2\<newline>'')), docCRLF (u ''a=1\<newline>'') (u ''1'')) \<and>
   save fsCRLF [CR, NL] (docCRLF (u ''a=1\<newline>'') (u ''1''))
     = Inr (fsCRLF(''c.ini'' \<mapsto> encode (u ''a=1'' @ [CR, NL] @ u ''b=2'' @ [CR, NL])),
            docCRLF (u ''a=1\<newline>'') (u ''1'')) \<and>
   set_value fsCRLF (docCRLF (u ''a=1\<newline>'') (u ''1'')) [] (u ''a'') (u ''9'')
     = Inr (docCRLF (u ''a=9\<newline>\<newline>'') (u ''9''))"
  by (simp add: fsCRLF_def docCRLF_def doc_defs rx_defs str_defs io_defs)

text \<open>
  Claim C7.  \<open>load\<close> fails, with \<open>FileNotFoundError\<close>, exactly when the path names
  no file; whatever the file holds it succeeds, and the text read is kept line by
  line.  Every Entry comes from a line that matches the key pattern and not the
  section pattern, so a line that matches neither (a line starting with \<open>;\<close> is
  one) has no Entry.  On the loaded document \<open>get\<close>, \<open>set\<close> and \<open>save\<close> return
  without error.
\<close>

theorem load_fails_only_without_file:
  "(fs (path d0) = None \<longrightarrow> load fs d0 = Inl (FileNotFoundError (path d0))) \<and>
   (\<forall>bytes. fs (path d0) = Some bytes \<longrightarrow>
      (\<exists>d. load fs d0 = Inr d \<and> concat (lines d) = read_text bytes \<and>
         (\<forall>t r. map_of (refs d) t = Some r \<longrightarrow>
            re_match SECTION_RE (lines d ! line_index r) = None \<and>
            re_match KEYVAL_RE (lines d ! line_index r) \<noteq> None) \<and>
         (\<forall>s k. get fs d s k
            = Inr (map_option ref_value (map_of (refs d) (norm_section s, norm_key k)), d)) \<and>
         (\<forall>s k v. \<exists>d'. set_value fs d s k v = Inr d') \<and>
         (\<forall>linesep. \<exists>fs'. save fs linesep d = Inr (fs', d)))) \<and>
   (\<forall>rest. re_match SECTION_RE (u '';'' @ rest) = None \<and>
           re_match KEYVAL_RE (u '';'' @ rest) = None)"
proof -
  have a: "fs (path d0) = None \<longrightarrow> load fs d0 = Inl (FileNotFoundError (path d0))"
    by (simp add: load_def)
  have b: "\<exists>d. load fs d0 = Inr d \<and> concat (lines d) = read_text bytes \<and>
         (\<forall>t r. map_of (refs d) t = Some r \<longrightarrow>
            re_match SECTION_RE (lines d ! line_index r) = None \<and>
            re_match KEYVAL_RE (lines d ! line_index r) \<noteq> None) \<and>
         (\<forall>s k. get fs d s k
            = Inr (map_option ref_value (map_of (refs d) (norm_section s, norm_key k)), d)) \<and>
         (\<forall>s k v. \<exists>d'. set_value fs d s k v = Inr d') \<and>
         (\<forall>linesep. \<exists>fs'. save fs linesep d = Inr (fs', d))"
    if f: "fs (path d0) = Some bytes" for bytes
  proof -
    from load_lines [of fs d0 bytes, OF f] obtain d where d: "load fs d0 = Inr d"
      "lines d = splitlines_keepends (read_text bytes)" by blast
    have l: "loaded d" using d(1) by (rule load_loaded)
    have c: "concat (lines d) = read_text bytes" by (simp add: d(2) concat_splitlines)
    have o: "\<forall>t r. map_of (refs d) t = Some r \<longrightarrow>
            re_match SECTION_RE (lines d ! line_index r) = None \<and>
            re_match KEYVAL_RE (lines d ! line_index r) \<noteq> None"
      using other_line_no_entry [OF d(1)] by blast
    have g: "\<forall>s k. get fs d s k
            = Inr (map_option ref_value (map_of (refs d) (norm_section s, norm_key k)), d)"
      using l by (simp add: get_def ensure_loaded_def)
    have s: "\<forall>s k v. \<exists>d'. set_value fs d s k v = Inr d'"
      using set_value_total [OF d(1)] by blast
    have sv: "\<forall>linesep. \<exists>fs'. save fs linesep d = Inr (fs', d)"
      using l by (simp add: save_def ensure_loaded_def)
    show ?thesis using d(1) c o g s sv by blast
  qed
  show ?thesis using a b comment_line_other by blast
qed

theorem load_fails_only_without_file_witness:
  "fsC (path (IniDocument_init ''n.ini''))
     = Some (encode (u ''; note\<newline>[A]\<newline>foo=1\<newline>???\<newline>'')) \<and>
   (\<exists>d. load fsC (IniDocument_init ''n.ini'') = Inr d \<and>
      concat (lines d) = u ''; note\<newline>[A]\<newline>foo=1\<newline>???\<newline>'' \<and>
      (\<exists>d'. set_value fsC d (u ''A'') (u ''bar'') (u ''2'') = Inr d') \<and>
      (\<exists>fs'. save fsC [NL] d = Inr (fs', d)))"
proof -
  let ?t = "u ''; note\<newline>[A]\<newline>foo=1\<newline>???\<newline>''"
  have b: "fsC (path (IniDocument_init ''n.ini'')) = Some (encode ?t)"
    by (simp add: fsC_def IniDocument_init_def)
  have r: "read_text (encode ?t) = ?t"
    by (simp add: io_defs str_defs)
  note th = load_fails_only_without_file [of fsC "IniDocument_init ''n.ini''",
      THEN conjunct2, THEN conjunct1, rule_format, OF b]
  then obtain d where d: "load fsC (IniDocument_init ''n.ini'') = Inr d"
    "concat (lines d) = read_text (encode ?t)"
    "\<forall>s k v. \<exists>d'. set_value fsC d s k v = Inr d'"
    "\<forall>linesep. \<exists>fs'. save fsC linesep d = Inr (fs', d)"
    by blast
  have s: "\<exists>d'. set_value fsC d (u ''A'') (u ''bar'') (u ''2'') = Inr d'" using d(3) by blast
  have sv: "\<exists>fs'. save fsC [NL] d = Inr (fs', d)" using d(4) by blast
  show ?thesis using b d(1) d(2) s sv unfolding r by blast
qed

text \<open>
  Claim C9, as stated: an untouched \<open>TRUE\<close> is written back as \<open>true\<close> (its control
  is a check box, and the write-back stores \<open>true\<close> or \<open>false\<close> for every check
  box), and an untouched \<open>0x10\<close> becomes a spin box holding 16, written as \<open>16\<close>.
\<close>

theorem write_back_rewrites_untouched:
  "load (fsT (u ''TRUE'')) (IniDocument_init ''t.ini'')
     = Inr (docT (u ''a=TRUE\<newline>'') (u ''TRUE'')) \<and>
   set_document (fsT (u ''TRUE'')) lower no_float (docT (u ''a=TRUE\<newline>'') (u ''TRUE''))
     = Inr [(([], []), QLabel), (([], u ''a''), QCheckBox True)] \<and>
   apply_controls_to_doc (fsT (u ''TRUE'')) no_fmt (docT (u ''a=TRUE\<newline>'') (u ''TRUE''))
       [(([], []), QLabel), (([], u ''a''), QCheckBox True)]
     = Inr (docT (u ''a=true\<newline>\<newline>'') (u ''true'')) \<and>
   get (fsT (u ''TRUE'')) (docT (u ''a=true\<newline>\<newline>'') (u ''true'')) [] (u ''a'')
     = Inr (Some (u ''true''), docT (u ''a=true\<newline>\<newline>'') (u ''true'')) \<and>
   u ''true'' \<noteq> u ''TRUE'' \<and>
   control_for no_float (u ''0x10'') = Inr (QSpinBox 16) \<and>
   new_val no_fmt (QSpinBox 16) = Some (u ''16'')"
  by (simp add: fsT_def docT_def no_float_def no_fmt_def gui_defs doc_defs rx_defs str_defs
        io_defs str_nat.simps)

text \<open>
  Claim C9, amended.  The write-back of the form built from a loaded document sets
  every key with a non-empty name to the text of its control, touched or not.  For a
  value shown in a line edit that is the value itself, so a free-text value is read
  back exactly as it was.  A value that \<open>_is_bool_text\<close> reads as a boolean is shown
  in a check box and written as \<open>true\<close> or \<open>false\<close>; a colour is written without its
  surrounding whitespace; the value of a spin box is the integer \<open>_parse_int\<close> read,
  written as \<open>str\<close> writes it; the value of a floating-point spin box is the number
  \<open>float\<close> read, written as the write-back formats it.
\<close>

theorem write_back_values:
  assumes "load fs d0 = Inr d" and "set_document fs lw pf d = Inr cs"
    and "map_of (refs d) (s, k) = Some r" and "k \<noteq> []"
  shows "\<exists>d' w. control_for pf (ref_value r) = Inr w \<and>
           apply_controls_to_doc fs fmt d cs = Inr d' \<and>
           get fs d' s k = Inr (new_val fmt w, d') \<and>
           (\<forall>t. w = QLineEdit t \<longrightarrow> get fs d' s k = Inr (Some (ref_value r), d')) \<and>
           (\<forall>b. is_bool_text (ref_value r) = Some b \<longrightarrow>
                  w = QCheckBox b \<and>
                  get fs d' s k = Inr (Some (if b then u ''true'' else u ''false''), d')) \<and>
           (\<forall>b. w = QCheckBox b \<longrightarrow> is_bool_text (ref_value r) = Some b) \<and>
           (\<forall>t. w = ColorEditor t \<longrightarrow>
                  is_bool_text (ref_value r) = None \<and> parse_hex_color (ref_value r) \<noteq> None \<and>
                  get fs d' s k = Inr (Some (strip (ref_value r)), d')) \<and>
           (\<forall>n. w = QSpinBox n \<longrightarrow>
                  parse_int (ref_value r) = Some n \<and>
                  get fs d' s k = Inr (Some (str_int n), d')) \<and>
           (\<forall>x. w = QDoubleSpinBox x \<longrightarrow>
                  pf (strip (ref_value r)) = Some x \<and>
                  get fs d' s k = Inr (Some (fmt x), d'))"
proof -
  have l: "loaded d" using assms(1) by (rule load_loaded)
  have wi: "well_indexed d" using assms(1) by (rule load_well_indexed)
  have cs: "add_controls pf [] (all_items lw d) = Inr cs"
    using assms(2) l by (simp add: set_document_def ensure_loaded_def)
  have dist: "distinct (map fst cs)"
    using add_controls_distinct [OF cs] by simp
  have sound: "\<exists>r' \<in> set (all_items lw d). ref_section r' = s' \<and> ref_key r' = k' \<and>
                 control_for pf (ref_value r') = Inr w'"
    if "map_of cs (s', k') = Some w'" "k' \<noteq> []" for s' k' w'
    using add_controls_sound [OF cs that] by simp
  have hits: "\<forall>s' k' w'. ((s', k'), w') \<in> set cs \<and> k' \<noteq> [] \<and> new_val fmt w' \<noteq> None \<longrightarrow>
           norm_section s' = s' \<and> norm_key k' = k' \<and> map_of (refs d) (s', k') \<noteq> None"
  proof (intro allI impI)
    fix s' k' w'
    assume a: "((s', k'), w') \<in> set cs \<and> k' \<noteq> [] \<and> new_val fmt w' \<noteq> None"
    then have "map_of cs (s', k') = Some w'" using dist by simp
    from sound [OF this] a obtain r' where r': "r' \<in> set (all_items lw d)"
      "ref_section r' = s'" "ref_key r' = k'" by blast
    from load_item_key [OF assms(1) r'(1)] r'(2,3)
    show "norm_section s' = s' \<and> norm_key k' = k' \<and> map_of (refs d) (s', k') \<noteq> None"
      by simp
  qed
  from apply_controls_refs [OF wi dist hits] obtain d' where d':
    "apply_controls_to_doc fs fmt d cs = Inr d'" "well_indexed d'"
    "\<forall>t. map_of (refs d') t = map_option (rewrite_ref (written fmt cs t)) (map_of (refs d) t)"
    by blast
  have key: "norm_section s = s" "norm_key k = k" "ref_section r = s" "ref_key r = k"
    using load_ref_key [OF assms(1,3)] by simp_all
  have rin: "r \<in> set (all_items lw d)"
    using assms(3) by (auto simp: all_items_set dest!: map_of_SomeD intro: rev_image_eqI)
  have "map_of cs (s, k) \<noteq> None"
    using add_controls_complete [OF cs assms(4), of s] rin key(3,4) by blast
  then obtain w where w: "map_of cs (s, k) = Some w" by blast
  from sound [OF w assms(4)] obtain r' where r': "r' \<in> set (all_items lw d)"
    "ref_section r' = s" "ref_key r' = k" "control_for pf (ref_value r') = Inr w" by blast
  have "map_of (refs d) (s, k) = Some r'"
    using load_item_key [OF assms(1) r'(1)] r'(2,3) by simp
  with assms(3) have "r' = r" by simp
  with r'(4) have cf: "control_for pf (ref_value r) = Inr w" by simp
  from control_for_not_label [OF cf] obtain v where v: "new_val fmt w = Some v" by blast
  have wr: "written fmt cs (s, k) = Some v"
    using w v assms(4) by (simp add: written_def)
  have "map_of (refs d') (s, k) = Some (r\<lparr>ref_value := v\<rparr>)"
    using d'(3) [rule_format, of "(s, k)"] wr assms(3) by (simp add: rewrite_ref_def)
  then have g: "get fs d' s k = Inr (new_val fmt w, d')"
    using d'(2) key(1,2) v by (simp add: get_def ensure_loaded_def well_indexed_def)
  note cases = control_for_cases [OF cf]
  have t: "\<forall>t. w = QLineEdit t \<longrightarrow> get fs d' s k = Inr (Some (ref_value r), d')"
    using g cases by (simp add: new_val_def)
  have b1: "\<forall>b. is_bool_text (ref_value r) = Some b \<longrightarrow>
              w = QCheckBox b \<and>
              get fs d' s k = Inr (Some (if b then u ''true'' else u ''false''), d')"
    using g cf by (auto simp: new_val_def control_for_def)
  have b2: "\<forall>b. w = QCheckBox b \<longrightarrow> is_bool_text (ref_value r) = Some b"
    using cases by simp
  have c: "\<forall>t. w = ColorEditor t \<longrightarrow>
              is_bool_text (ref_value r) = None \<and> parse_hex_color (ref_value r) \<noteq> None \<and>
              get fs d' s k = Inr (Some (strip (ref_value r)), d')"
    using g cases by (auto simp: new_val_def)
  have n: "\<forall>n. w = QSpinBox n \<longrightarrow>
              parse_int (ref_value r) = Some n \<and> get fs d' s k = Inr (Some (str_int n), d')"
    using g cases by (simp add: new_val_def)
  have x: "\<forall>x. w = QDoubleSpinBox x \<longrightarrow>
              pf (strip (ref_value r)) = Some x \<and> get fs d' s k = Inr (Some (fmt x), d')"
    using g cases by (simp add: new_val_def)
  show ?thesis using cf d'(1) g t b1 b2 c n x by blast
qed

theorem write_back_values_witness:
  "load (fsT (u ''hello'')) (IniDocument_init ''t.ini'')
     = Inr (docT (u ''a=hello\<newline>'') (u ''hello'')) \<and>
   set_document (fsT (u ''hello'')) lower no_float (docT (u ''a=hello\<newline>'') (u ''hello''))
     = Inr [(([], []), QLabel), (([], u ''a''), QLineEdit (u ''hello''))] \<and>
   u ''a'' \<noteq> [] \<and>
   (\<exists>d'. apply_controls_to_doc (fsT (u ''hello'')) no_fmt
            (docT (u ''a=hello\<newline>'') (u ''hello''))
            [(([], []), QLabel), (([], u ''a''), QLineEdit (u ''hello''))] = Inr d' \<and>
          get (fsT (u ''hello'')) d' [] (u ''a'') = Inr (Some (u ''hello''), d'))"
proof -
  let ?fs = "fsT (u ''hello'')" and ?d = "docT (u ''a=hello\<newline>'') (u ''hello'')"
  let ?cs = "[(([], []), QLabel), (([], u ''a''), QLineEdit (u ''hello''))] :: unit controls"
  let ?r = "\<lparr>ref_section = [], ref_key = u ''a'', ref_value = u ''hello'',
             line_index = 0, ref_prefix = [], ref_suffix = [NL]\<rparr>"
  have l: "load ?fs (IniDocument_init ''t.ini'') = Inr ?d" by (rule docT_hello_load)
  have c: "set_document ?fs lower no_float ?d = Inr ?cs"
    by (simp add: docT_def no_float_def gui_defs doc_defs rx_defs str_defs)
  have m: "map_of (refs ?d) ([], u ''a'') = Some ?r" by (simp add: docT_def)
  have k: "u ''a'' \<noteq> []" by (simp add: u_def)
  have cf: "control_for no_float (ref_value ?r) = Inr (QLineEdit (u ''hello''))"
    by (simp add: no_float_def gui_defs rx_defs str_defs)
  from write_back_values [OF l c m k, of no_fmt] obtain d' w where
    w: "control_for no_float (ref_value ?r) = Inr w"
    and a: "apply_controls_to_doc ?fs no_fmt ?d ?cs = Inr d'"
    and t: "\<forall>t. w = QLineEdit t \<longrightarrow> get ?fs d' [] (u ''a'') = Inr (Some (ref_value ?r), d')"
    by blast
  from w cf have "w = QLineEdit (u ''hello'')" by simp
  with t have "get ?fs d' [] (u ''a'') = Inr (Some (u ''hello''), d')" by simp
  with a l c k show ?thesis by blast
qed

end
